theory Spec2Isabelle
  imports Complex_Main "HOL-Library.AList" "HOL-Library.Log_Nat" "HOL-Library.Multiset"
    "HOL-Library.Sublist"
begin

section \<open>JavaScript values\<close>

text \<open>
  The planner is a single React component (\<^verbatim>\<open>script.js\<close>) over plain JavaScript data.
  Numbers are IEEE 754 doubles. Those the program stores, adds and compares are whole
  (results of \<^verbatim>\<open>parseInt\<close> and sums of them): \<open>Num n\<close> is the double whose value is the
  integer \<open>n\<close>, beside the two infinities and \<^verbatim>\<open>NaN\<close>. Not every integer is a double:
  \<open>n\<close> is one when rounding leaves it as it is, and every arithmetic result is rounded.
  The sign of zero, which nothing in the program observes, is not kept. Strings are
  lists of 8-bit characters.
\<close>

datatype number = NaN | PosInfinity | NegInfinity | Num int

datatype jsval = JUndefined | JNull | JBool bool | JNumber number | JString string

subsection \<open>Rounding to a double\<close>

text \<open>
  A double has 53 significant bits: a non-negative integer of \<open>b\<close> bits is rounded to
  the nearest multiple of \<open>2 ^ (b - 53)\<close>, to the even one of two equally near, and
  a result of \<open>2 ^ 1024\<close> is out of range and becomes an infinity.
\<close>

definition roundToEven :: "int \<Rightarrow> int \<Rightarrow> int" where
  "roundToEven x q =
     (let m = x div q; r = x mod q
      in if 2 * r < q \<or> (2 * r = q \<and> even m) then m * q else (m + 1) * q)"

definition toDouble :: "int \<Rightarrow> number" where
  "toDouble n =
     (let r = roundToEven \<bar>n\<bar> (2 ^ nat (bitlen \<bar>n\<bar> - 53))
      in if 2 ^ 1024 \<le> r then (if 0 < n then PosInfinity else NegInfinity)
         else Num (sgn n * r))"

text \<open>\<^verbatim>\<open>a + b\<close>, \<^verbatim>\<open>a > b\<close> and \<^verbatim>\<open>a || b\<close> on numbers: the sum is rounded; \<^verbatim>\<open>NaN\<close> is
  absorbing for addition, as is an infinity except against the opposite one; \<^verbatim>\<open>NaN\<close>
  compares false and is falsy like zero.\<close>

fun jsAdd :: "number \<Rightarrow> number \<Rightarrow> number" where
  "jsAdd (Num a) (Num b) = toDouble (a + b)"
| "jsAdd NaN _ = NaN"
| "jsAdd _ NaN = NaN"
| "jsAdd PosInfinity NegInfinity = NaN"
| "jsAdd NegInfinity PosInfinity = NaN"
| "jsAdd PosInfinity _ = PosInfinity"
| "jsAdd _ PosInfinity = PosInfinity"
| "jsAdd NegInfinity _ = NegInfinity"
| "jsAdd _ NegInfinity = NegInfinity"

fun jsGreater :: "number \<Rightarrow> number \<Rightarrow> bool" where
  "jsGreater (Num a) (Num b) = (b < a)"
| "jsGreater PosInfinity (Num b) = True"
| "jsGreater PosInfinity NegInfinity = True"
| "jsGreater (Num a) NegInfinity = True"
| "jsGreater _ _ = False"

fun falsyNumber :: "number \<Rightarrow> bool" where
  "falsyNumber NaN = True"
| "falsyNumber (Num n) = (n = 0)"
| "falsyNumber _ = False"

definition jsOr :: "number \<Rightarrow> number \<Rightarrow> number" where
  "jsOr a b = (if falsyNumber a then b else a)"

text \<open>The numbers that are doubles: all but a \<open>Num n\<close> that rounding would change.\<close>

definition isDouble :: "number \<Rightarrow> bool" where
  "isDouble x = (case x of Num n \<Rightarrow> toDouble n = Num n | _ \<Rightarrow> True)"

subsection \<open>Number to string\<close>

definition digitChar :: "nat \<Rightarrow> char" where
  "digitChar d = ''0123456789'' ! d"

fun digits :: "nat \<Rightarrow> string" where
  "digits n = (if n < 10 then [digitChar n] else digits (n div 10) @ [digitChar (n mod 10)])"

declare digits.simps [simp del]

definition showInt :: "int \<Rightarrow> string" where
  "showInt n = (if n < 0 then CHR ''-'' # digits (nat (- n)) else digits (nat n))"

text \<open>
  A whole double is printed with the digits of the shortest decimal that still rounds
  to it, and of the decimals of that length the nearest one: below \<open>10 ^ 21\<close> in
  magnitude in full, the significant digits and then zeros, and from \<open>10 ^ 21\<close> on in
  exponent form, \<^verbatim>\<open>d.ddde+n\<close>. For a double \<open>x\<close> of \<open>D\<close> digits the decimals of \<open>k\<close>
  significant digits nearest to it are the two multiples of \<open>10 ^ (D - k)\<close> around it;
  17 digits always suffice. Below \<open>2 ^ 53\<close> the shortest decimal is the integer itself.
\<close>

definition decimalCandidates :: "int \<Rightarrow> nat \<Rightarrow> int list" where
  "decimalCandidates x k =
     (let p = 10 ^ (length (digits (nat x)) - k); lo = x div p * p; hi = lo + p
      in filter (\<lambda>v. toDouble v = Num x)
           (if x - lo < hi - x \<or> (x - lo = hi - x \<and> even (lo div p)) then [lo, hi]
            else [hi, lo]))"

definition shortestDecimal :: "int \<Rightarrow> int" where
  "shortestDecimal x =
     (case concat (map (decimalCandidates x) [1..<18]) of [] \<Rightarrow> x | v # vs \<Rightarrow> v)"

definition stripZeros :: "string \<Rightarrow> string" where
  "stripZeros s = rev (dropWhile (\<lambda>c. c = CHR ''0'') (rev s))"

definition exponentForm :: "int \<Rightarrow> string" where
  "exponentForm x =
     (let ds = digits (nat (shortestDecimal x)); sig = stripZeros ds
      in hd sig # (if tl sig = [] then [] else CHR ''.'' # tl sig)
         @ ''e+'' @ digits (length ds - 1))"

fun toStringNumber :: "number \<Rightarrow> string" where
  "toStringNumber NaN = ''NaN''"
| "toStringNumber PosInfinity = ''Infinity''"
| "toStringNumber NegInfinity = ''-Infinity''"
| "toStringNumber (Num n) =
     (if \<bar>n\<bar> < 10 ^ 21 then showInt (sgn n * shortestDecimal \<bar>n\<bar>)
      else if n < 0 then CHR ''-'' # exponentForm (- n) else exponentForm n)"

fun toString :: "jsval \<Rightarrow> string" where
  "toString JUndefined = ''undefined''"
| "toString JNull = ''null''"
| "toString (JBool b) = (if b then ''true'' else ''false'')"
| "toString (JNumber x) = toStringNumber x"
| "toString (JString s) = s"

subsection \<open>\<^verbatim>\<open>parseInt\<close> without a radix argument\<close>

text \<open>
  Leading white space is skipped, one sign is read, a \<^verbatim>\<open>0x\<close> prefix switches to radix
  16, and the longest run of digits of the radix is read; no digit at all gives
  \<^verbatim>\<open>NaN\<close>. Whatever follows the digits is ignored. The result is the double nearest to
  the integer the digits spell, an infinity from about 309 decimal digits on. (Past the
  20th significant decimal digit the standard lets an engine read the digits as zeros;
  the nearest double is taken here.)
\<close>

definition isWhiteSpace :: "char \<Rightarrow> bool" where
  "isWhiteSpace c \<longleftrightarrow> c \<in> set [CHR 0x09, CHR 0x0A, CHR 0x0B, CHR 0x0C, CHR 0x0D, CHR 0x20, CHR 0xA0]"

definition decimalDigits :: "(char \<times> int) list" where
  "decimalDigits =
     [(CHR ''0'', 0), (CHR ''1'', 1), (CHR ''2'', 2), (CHR ''3'', 3), (CHR ''4'', 4),
      (CHR ''5'', 5), (CHR ''6'', 6), (CHR ''7'', 7), (CHR ''8'', 8), (CHR ''9'', 9)]"

definition hexLetters :: "(char \<times> int) list" where
  "hexLetters =
     [(CHR ''a'', 10), (CHR ''b'', 11), (CHR ''c'', 12), (CHR ''d'', 13), (CHR ''e'', 14),
      (CHR ''f'', 15), (CHR ''A'', 10), (CHR ''B'', 11), (CHR ''C'', 12), (CHR ''D'', 13),
      (CHR ''E'', 14), (CHR ''F'', 15)]"

definition digitValue :: "int \<Rightarrow> char \<Rightarrow> int option" where
  "digitValue radix c =
     map_of (if radix = 16 then decimalDigits @ hexLetters else decimalDigits) c"

text \<open>The integer that a run of digits spells, exactly.\<close>

definition digitsValue :: "int \<Rightarrow> string \<Rightarrow> int" where
  "digitsValue radix cs =
     foldl (\<lambda>acc c. acc * radix + (case digitValue radix c of Some d \<Rightarrow> d | None \<Rightarrow> 0)) 0 cs"

definition parseDigits :: "int \<Rightarrow> int \<Rightarrow> string \<Rightarrow> number" where
  "parseDigits sign radix s =
     (let z = takeWhile (\<lambda>c. digitValue radix c \<noteq> None) s
      in if z = [] then NaN else toDouble (sign * digitsValue radix z))"

fun parseUnsigned :: "int \<Rightarrow> string \<Rightarrow> number" where
  "parseUnsigned sign (a # b # s) =
     (if a = CHR ''0'' \<and> (b = CHR ''x'' \<or> b = CHR ''X'')
      then parseDigits sign 16 s else parseDigits sign 10 (a # b # s))"
| "parseUnsigned sign s = parseDigits sign 10 s"

fun parseSigned :: "string \<Rightarrow> number" where
  "parseSigned [] = NaN"
| "parseSigned (c # s) =
     (if c = CHR ''-'' then parseUnsigned (- 1) s
      else if c = CHR ''+'' then parseUnsigned 1 s
      else parseUnsigned 1 (c # s))"

definition parseIntString :: "string \<Rightarrow> number" where
  "parseIntString s = parseSigned (dropWhile isWhiteSpace s)"

definition parseInt :: "jsval \<Rightarrow> number" where
  "parseInt v = parseIntString (toString v)"

section \<open>Tasks and the daily derived state\<close>

text \<open>
  A task as \<^verbatim>\<open>handleAddTask\<close> builds it. The estimate is kept as a JavaScript value:
  the program writes \<^verbatim>\<open>parseInt\<close> of the form field there and reads it back through
  \<^verbatim>\<open>parseInt\<close> again, and documents coming from the remote store may hold anything.
\<close>

record task =
  id' :: string
  date :: string
  title :: string
  category :: string
  subCategory :: string
  estTime :: jsval
  status :: string

text \<open>\<^verbatim>\<open>tasks.filter(t => t.date === selectedDate)\<close>\<close>

definition viewedTasks :: "task list \<Rightarrow> string \<Rightarrow> task list" where
  "viewedTasks tasks selectedDate = filter (\<lambda>t. date t = selectedDate) tasks"

text \<open>
  The statistics of the viewed day. The hours string (\<^verbatim>\<open>toFixed(1)\<close> of a floating
  point quotient) is presentation only and is left out.
\<close>

record overload =
  totalMins :: number
  totalTasks :: nat
  isOverloaded :: bool

definition estContribution :: "task \<Rightarrow> number" where
  "estContribution t = jsOr (parseInt (estTime t)) (Num 0)"

definition sumMins :: "task list \<Rightarrow> number" where
  "sumMins viewed = fold (\<lambda>t total. jsAdd total (estContribution t)) viewed (Num 0)"

definition overloadStats :: "task list \<Rightarrow> overload" where
  "overloadStats viewed =
     (let total = sumMins viewed
      in \<lparr> totalMins = total,
           totalTasks = length viewed,
           isOverloaded = (jsGreater total (Num 480) \<or> 6 < length viewed) \<rparr>)"

section \<open>Dates\<close>

text \<open>
  The \<^verbatim>\<open>Date\<close> object of the runtime: a time value in milliseconds since the epoch
  (UTC), read and written through local-time fields. The zone of the machine is the
  function \<open>LocalTZA(t, isUTC)\<close> of the language standard: the offset of local time
  from UTC in milliseconds, at the UTC instant \<open>t\<close> or at the local time \<open>t\<close>.
\<close>

type_synonym zone = "int \<Rightarrow> bool \<Rightarrow> int"

definition msPerDay :: int where "msPerDay = 86400000"
definition msPerHour :: int where "msPerHour = 3600000"
definition msPerMinute :: int where "msPerMinute = 60000"

definition localTime :: "zone \<Rightarrow> int \<Rightarrow> int" where
  "localTime tza t = t + tza t True"

definition utc :: "zone \<Rightarrow> int \<Rightarrow> int" where
  "utc tza t = t - tza t False"

definition fixedZone :: "int \<Rightarrow> zone" where
  "fixedZone offset = (\<lambda>t isUTC. offset)"

text \<open>Day number of a calendar date of the proleptic Gregorian calendar (months 1 to
  12), and back.\<close>

definition daysFromCivil :: "int \<Rightarrow> int \<Rightarrow> int \<Rightarrow> int" where
  "daysFromCivil y m d =
     (let y' = (if m \<le> 2 then y - 1 else y);
          era = y' div 400;
          yoe = y' mod 400;
          mp = (if 2 < m then m - 3 else m + 9);
          doy = (153 * mp + 2) div 5 + d - 1;
          doe = yoe * 365 + yoe div 4 - yoe div 100 + doy
      in era * 146097 + doe - 719468)"

definition civilFromDays :: "int \<Rightarrow> int \<times> int \<times> int" where
  "civilFromDays z =
     (let z' = z + 719468;
          era = z' div 146097;
          doe = z' mod 146097;
          yoe = (doe - doe div 1460 + doe div 36524 - doe div 146096) div 365;
          doy = doe - (365 * yoe + yoe div 4 - yoe div 100);
          mp = (5 * doy + 2) div 153;
          d = doy - (153 * mp + 2) div 5 + 1;
          m = (if mp < 10 then mp + 3 else mp - 9);
          y = yoe + era * 400
      in (if m \<le> 2 then y + 1 else y, m, d))"

definition isLeapYear :: "int \<Rightarrow> bool" where
  "isLeapYear y \<longleftrightarrow> y mod 4 = 0 \<and> (y mod 100 \<noteq> 0 \<or> y mod 400 = 0)"

definition daysInMonth :: "int \<Rightarrow> int \<Rightarrow> int" where
  "daysInMonth y m =
     (if m = 2 then (if isLeapYear y then 29 else 28)
      else if m = 4 \<or> m = 6 \<or> m = 9 \<or> m = 11 then 30 else 31)"

text \<open>\<open>MakeDay(year, month, date)\<close> with a month counted from 0: the day of the first of
  the month plus \<open>date - 1\<close>, so that a date past the end of the month runs on into the
  next one. \<open>MakeDate(day, time)\<close> puts the time of day on it.\<close>

definition makeDay :: "int \<Rightarrow> int \<Rightarrow> int \<Rightarrow> int" where
  "makeDay year month dt = daysFromCivil (year + month div 12) (month mod 12 + 1) 1 + dt - 1"

definition makeDate :: "int \<Rightarrow> int \<Rightarrow> int" where
  "makeDate day time = day * msPerDay + time"

text \<open>
  The date part \<^verbatim>\<open>YYYY-MM-DD\<close> of the standard's date-time format. Other spellings are
  read by rules of the engine's own and are taken as invalid here, as is a day the month
  does not have.
\<close>

definition isDigit :: "char \<Rightarrow> bool" where
  "isDigit c \<longleftrightarrow> digitValue 10 c \<noteq> None"

definition parseIsoDate :: "string \<Rightarrow> (int \<times> int \<times> int) option" where
  "parseIsoDate s =
     (let ys = take 4 s; ms = take 2 (drop 5 s); ds = drop 8 s
      in if length s = 10 \<and> s ! 4 = CHR ''-'' \<and> s ! 7 = CHR ''-''
            \<and> list_all isDigit (ys @ ms @ ds)
         then (let y = digitsValue 10 ys; m = digitsValue 10 ms; d = digitsValue 10 ds
               in if 1 \<le> m \<and> m \<le> 12 \<and> 1 \<le> d \<and> d \<le> daysInMonth y m
                  then Some (y, m, d) else None)
         else None)"


text \<open>\<^verbatim>\<open>d.setDate(d.getDate() + delta)\<close>: the date of the month is read in local time,
  changed, and the local time is converted back.\<close>

definition addLocalDays :: "zone \<Rightarrow> int \<Rightarrow> int \<Rightarrow> int" where
  "addLocalDays tza delta tv =
     (let lt = localTime tza tv;
          (y, m, d) = civilFromDays (lt div msPerDay)
      in utc tza (makeDate (makeDay y (m - 1) (d + delta)) (lt mod msPerDay)))"

text \<open>\<^verbatim>\<open>d.toISOString().split('T')[0]\<close>: the UTC date, the year on four digits, or signed
  on six outside 0 to 9999.\<close>

definition pad :: "nat \<Rightarrow> int \<Rightarrow> string" where
  "pad k n = (let ds = digits (nat n) in replicate (k - length ds) CHR ''0'' @ ds)"

definition isoYear :: "int \<Rightarrow> string" where
  "isoYear y =
     (if 0 \<le> y \<and> y \<le> 9999 then pad 4 y
      else if y < 0 then CHR ''-'' # pad 6 (- y) else CHR ''+'' # pad 6 y)"

definition formatDate :: "int \<times> int \<times> int \<Rightarrow> string" where
  "formatDate ymd = (case ymd of (y, m, d) \<Rightarrow> isoYear y @ ''-'' @ pad 2 m @ ''-'' @ pad 2 d)"

definition isoDateString :: "int \<Rightarrow> string" where
  "isoDateString tv = formatDate (civilFromDays (tv div msPerDay))"

datatype error = RangeError

text \<open>
  \<^verbatim>\<open>getNextDayStr\<close>: \<^verbatim>\<open>new Date(dateStr + 'T12:00:00')\<close> is noon of that date in local
  time, a day is added in local time, and the result is printed in UTC. An invalid
  date makes \<^verbatim>\<open>toISOString\<close> throw.
\<close>

definition getNextDayStr :: "zone \<Rightarrow> string \<Rightarrow> error + string" where
  "getNextDayStr tza dateStr =
     (case parseIsoDate dateStr of
        None \<Rightarrow> Inl RangeError
      | Some (y, m, d) \<Rightarrow>
          (let d0 = utc tza (makeDate (makeDay y (m - 1) d) (12 * msPerHour));
               d1 = addLocalDays tza 1 d0
           in Inr (isoDateString d1)))"

text \<open>
  \<^verbatim>\<open>getTodayStr\<close>: the clock reading is first moved by the zone offset
  (\<^verbatim>\<open>setMinutes(getMinutes() - getTimezoneOffset())\<close>), so that the UTC print shows the
  local date.
\<close>

definition getTimezoneOffset :: "zone \<Rightarrow> int \<Rightarrow> int" where
  "getTimezoneOffset tza tv = (tv - localTime tza tv) div msPerMinute"

definition getTodayStr :: "zone \<Rightarrow> int \<Rightarrow> string" where
  "getTodayStr tza now =
     (let lt = localTime tza now;
          shifted = utc tza (lt - getTimezoneOffset tza now * msPerMinute)
      in isoDateString shifted)"

text \<open>The calendar day after a date, the specification's side of the rollover.\<close>

definition nextCalendarDay :: "int \<times> int \<times> int \<Rightarrow> int \<times> int \<times> int" where
  "nextCalendarDay ymd =
     (case ymd of (y, m, d) \<Rightarrow>
        if d < daysInMonth y m then (y, m, d + 1)
        else if m < 12 then (y, m + 1, 1)
        else (y + 1, 1, 1))"

section \<open>The component state and its handlers\<close>

record reflection =
  id_r :: string
  date_r :: string
  completion :: number
  mood :: number
  overloaded_r :: bool
  notes_r :: "string option"

record taskForm =
  form_title :: string
  form_subCategory :: string
  form_estTime :: string

text \<open>The categories object is an association list: keys in insertion order, each with
  its list of sub-categories. (An object lists keys that are array indices first; the
  category names are not such keys.)\<close>

record state =
  categories :: "(string \<times> string list) list"
  tasks :: "task list"
  reflections :: "reflection list"
  selectedDate :: string
  selectedMainCat :: string
  taskForm :: taskForm

text \<open>The submitted form: \<^verbatim>\<open>formData.get(name)\<close> is the first value of that name, or
  \<^verbatim>\<open>null\<close>.\<close>

type_synonym formData = "string \<Rightarrow> string option"

definition formValue :: "formData \<Rightarrow> string \<Rightarrow> jsval" where
  "formValue fd name = (case fd name of None \<Rightarrow> JNull | Some s \<Rightarrow> JString s)"

subsection \<open>\<^verbatim>\<open>handleAddTask\<close>\<close>

definition defaultCategories :: "(string \<times> string list) list" where
  "defaultCategories =
     [(''Work'', [''Career Coaching'', ''Life Coaching'', ''Social Media'']),
      (''Wellness'', [''Social'', ''Physical'', ''Spiritual'']),
      (''Learning'', [''Reading'', ''Courses'']),
      (''Household'', [''General Chores'', ''Admin''])]"

definition chosenSubCat :: "state \<Rightarrow> string" where
  "chosenSubCat s =
     (if form_subCategory (taskForm s) = [] then ''General'' else form_subCategory (taskForm s))"

definition grownCategories :: "state \<Rightarrow> (string \<times> string list) list" where
  "grownCategories s =
     (let mainCat = selectedMainCat s; subCat = chosenSubCat s
      in case map_of (categories s) mainCat of
           Some subs \<Rightarrow>
             if subCat \<notin> set subs
             then AList.update mainCat (subs @ [subCat]) (categories s)
             else categories s
         | None \<Rightarrow> categories s)"

definition newTask :: "int \<Rightarrow> state \<Rightarrow> task" where
  "newTask now s =
     \<lparr> id' = showInt now,
       date = selectedDate s,
       title = form_title (taskForm s),
       category = selectedMainCat s,
       subCategory = chosenSubCat s,
       estTime = JNumber (parseIntString (form_estTime (taskForm s))),
       status = ''Not Started'' \<rparr>"

definition handleAddTask :: "int \<Rightarrow> state \<Rightarrow> state" where
  "handleAddTask now s =
     s \<lparr> categories := grownCategories s,
         tasks := tasks s @ [newTask now s],
         taskForm := (taskForm s) \<lparr> form_title := [], form_estTime := [] \<rparr> \<rparr>"

subsection \<open>\<^verbatim>\<open>saveReflection\<close>\<close>

definition newRef :: "int \<Rightarrow> formData \<Rightarrow> state \<Rightarrow> reflection" where
  "newRef now fd s =
     \<lparr> id_r = showInt now,
       date_r = selectedDate s,
       completion = parseInt (formValue fd ''completion''),
       mood = parseInt (formValue fd ''mood''),
       overloaded_r = (fd ''overloaded'' = Some ''on''),
       notes_r = fd ''notes'' \<rparr>"

definition savedReflections :: "int \<Rightarrow> formData \<Rightarrow> state \<Rightarrow> reflection list" where
  "savedReflections now fd s =
     filter (\<lambda>r. date_r r \<noteq> selectedDate s) (reflections s) @ [newRef now fd s]"

text \<open>The test of the rollover loop: the task is of the viewed date, not done, and its
  checkbox \<^verbatim>\<open>recycle_<id>\<close> came back checked.\<close>

definition shouldRecycle :: "formData \<Rightarrow> string \<Rightarrow> task \<Rightarrow> bool" where
  "shouldRecycle fd sel t \<longleftrightarrow>
     date t = sel \<and> status t \<noteq> ''Done'' \<and> fd (''recycle_'' @ id' t) = Some ''on''"

definition updatedTasks :: "formData \<Rightarrow> string \<Rightarrow> string \<Rightarrow> task list \<Rightarrow> task list" where
  "updatedTasks fd sel nextDayStr ts =
     map (\<lambda>t. if shouldRecycle fd sel t then t \<lparr> date := nextDayStr \<rparr> else t) ts"

definition recycledCount :: "formData \<Rightarrow> string \<Rightarrow> task list \<Rightarrow> nat" where
  "recycledCount fd sel ts = length (filter (shouldRecycle fd sel) ts)"

text \<open>What the handler ends with: the exception of an invalid date, or one of its two
  messages (the count, and whether the viewed day is today).\<close>

datatype outcome = Threw error | RolledOver nat bool | SavedOnly

text \<open>
  The reflections are stored first; the next day is computed after it, so an exception
  there leaves the new reflection in place and the tasks as they were. The tasks are
  stored only when at least one was rolled over.
\<close>

definition saveReflection :: "zone \<Rightarrow> int \<Rightarrow> string \<Rightarrow> formData \<Rightarrow> state \<Rightarrow> state \<times> outcome" where
  "saveReflection tza now actualTodayStr fd s =
     (let s1 = s \<lparr> reflections := savedReflections now fd s \<rparr>
      in case getNextDayStr tza (selectedDate s) of
           Inl e \<Rightarrow> (s1, Threw e)
         | Inr nextDayStr \<Rightarrow>
             (let n = recycledCount fd (selectedDate s) (tasks s)
              in if 0 < n
                 then (s1 \<lparr> tasks := updatedTasks fd (selectedDate s) nextDayStr (tasks s) \<rparr>,
                       RolledOver n (selectedDate s = actualTodayStr))
                 else (s1, SavedOnly)))"

subsection \<open>Reminders\<close>

text \<open>The two predicates over \<^verbatim>\<open>getHours()\<close> and \<^verbatim>\<open>getMinutes()\<close> of the clock at
  render time, and the conditions under which the two blocks are rendered inside their
  views: the morning banner in the daily view, the evening block in the reflection
  view.\<close>

definition isMorningReviewTime :: "int \<Rightarrow> int \<Rightarrow> bool" where
  "isMorningReviewTime currentHour currentMinute \<longleftrightarrow>
     currentHour = 9 \<and> 30 \<le> currentMinute \<and> currentHour < 12"

definition isEveningReflectionTime :: "int \<Rightarrow> int \<Rightarrow> bool" where
  "isEveningReflectionTime currentHour currentMinute \<longleftrightarrow>
     22 \<le> currentHour \<or> (currentHour = 22 \<and> 30 \<le> currentMinute)"

definition morningBannerVisible :: "int \<Rightarrow> int \<Rightarrow> string \<Rightarrow> string \<Rightarrow> bool" where
  "morningBannerVisible currentHour currentMinute selDate actualTodayStr \<longleftrightarrow>
     isMorningReviewTime currentHour currentMinute \<and> selDate = actualTodayStr"

definition eveningBannerVisible :: "int \<Rightarrow> int \<Rightarrow> bool" where
  "eveningBannerVisible currentHour currentMinute \<longleftrightarrow>
     isEveningReflectionTime currentHour currentMinute \<or> True"

text \<open>The two windows as the specification words them: 09:30 to 11:59, and from 22:00
  on.\<close>

definition morningReviewWindow :: "int \<Rightarrow> int \<Rightarrow> bool" where
  "morningReviewWindow h m \<longleftrightarrow> (h = 9 \<and> 30 \<le> m) \<or> (10 \<le> h \<and> h \<le> 11)"

definition eveningReflectionWindow :: "int \<Rightarrow> int \<Rightarrow> bool" where
  "eveningReflectionWindow h m \<longleftrightarrow> 22 \<le> h"


section \<open>Dashboard\<close>

subsection \<open>Mood trend\<close>










subsection \<open>Weekly time by category\<close>


text \<open>\<^verbatim>\<open>last7DaysDate\<close>: the clock reading, moved back seven days in local time.\<close>

definition last7DaysDate :: "zone \<Rightarrow> int \<Rightarrow> int" where
  "last7DaysDate tza now = addLocalDays tza (- 7) now"





text \<open>\<^verbatim>\<open>Object.values(w).reduce((a,b)=>a+b, 0) || 1\<close>\<close>

definition bucketSum :: "(string \<times> number) list \<Rightarrow> number" where
  "bucketSum w = fold (\<lambda>b a. jsAdd a b) (map snd w) (Num 0)"

definition totalWeeklyTime :: "(string \<times> number) list \<Rightarrow> number" where
  "totalWeeklyTime w = jsOr (bucketSum w) (Num 1)"

subsection \<open>Quotients\<close>

text \<open>
  The share of a bucket, \<^verbatim>\<open>(time / totalWeeklyTime) * 100\<close>, is a double that need not
  be whole. A finite double is kept as the rational number it is. The quotient and the
  product are the exact results rounded to the nearest double, to the one with the even
  significand of two equally near: for a value in the binade \<open>2 ^ e \<le> a < 2 ^ (e + 1)\<close>
  the doubles are the multiples of \<open>2 ^ (e - 52)\<close>, and below \<open>2 ^ - 1022\<close> they are
  the multiples of \<open>2 ^ - 1074\<close>.
\<close>

datatype double = DNaN | DPosInfinity | DNegInfinity | Finite rat

definition binade :: "rat \<Rightarrow> int" where
  "binade a = (if 1 \<le> a then bitlen \<lfloor>a\<rfloor> - 1 else - bitlen (\<lceil>1 / a\<rceil> - 1))"

definition roundHalfEven :: "rat \<Rightarrow> int" where
  "roundHalfEven z =
     (let f = \<lfloor>z\<rfloor>; d = z - of_int f
      in if d < 1 / 2 \<or> (d = 1 / 2 \<and> even f) then f else f + 1)"

definition roundDouble :: "rat \<Rightarrow> double" where
  "roundDouble x =
     (if x = 0 then Finite 0
      else (let a = \<bar>x\<bar>;
                u = 2 powi (max (binade a) (- 1022) - 52);
                r = of_int (roundHalfEven (a / u)) * u
            in if 2 ^ 1024 \<le> r then (if 0 < x then DPosInfinity else DNegInfinity)
               else Finite (sgn x * r)))"

fun asDouble :: "number \<Rightarrow> double" where
  "asDouble NaN = DNaN"
| "asDouble PosInfinity = DPosInfinity"
| "asDouble NegInfinity = DNegInfinity"
| "asDouble (Num n) = Finite (of_int n)"

definition signedInfinity :: "bool \<Rightarrow> double" where
  "signedInfinity positive = (if positive then DPosInfinity else DNegInfinity)"

text \<open>\<^verbatim>\<open>a / b\<close>. The divisor of the program is never zero (a zero total is replaced by
  1); a finite non-zero value over zero is given here as for the zero of positive
  sign.\<close>

fun jsDivide :: "double \<Rightarrow> double \<Rightarrow> double" where
  "jsDivide (Finite a) (Finite b) =
     (if b = 0 then (if a = 0 then DNaN else signedInfinity (0 < a))
      else roundDouble (a / b))"
| "jsDivide DNaN _ = DNaN"
| "jsDivide _ DNaN = DNaN"
| "jsDivide (Finite a) _ = Finite 0"
| "jsDivide DPosInfinity (Finite b) = signedInfinity (0 \<le> b)"
| "jsDivide DNegInfinity (Finite b) = signedInfinity (b < 0)"
| "jsDivide _ _ = DNaN"

text \<open>\<^verbatim>\<open>a * b\<close>\<close>

fun jsTimes :: "double \<Rightarrow> double \<Rightarrow> double" where
  "jsTimes (Finite a) (Finite b) = roundDouble (a * b)"
| "jsTimes DNaN _ = DNaN"
| "jsTimes _ DNaN = DNaN"
| "jsTimes (Finite a) DPosInfinity = (if a = 0 then DNaN else signedInfinity (0 < a))"
| "jsTimes (Finite a) DNegInfinity = (if a = 0 then DNaN else signedInfinity (a < 0))"
| "jsTimes DPosInfinity (Finite b) = (if b = 0 then DNaN else signedInfinity (0 < b))"
| "jsTimes DNegInfinity (Finite b) = (if b = 0 then DNaN else signedInfinity (b < 0))"
| "jsTimes DPosInfinity DPosInfinity = DPosInfinity"
| "jsTimes DNegInfinity DNegInfinity = DPosInfinity"
| "jsTimes _ _ = DNegInfinity"

text \<open>\<^verbatim>\<open>Math.round\<close>: the nearest whole number, the upper one of two equally near. The
  result is a double with no rounding of its own.\<close>

fun mathRound :: "double \<Rightarrow> number" where
  "mathRound (Finite x) = Num \<lfloor>x + 1 / 2\<rfloor>"
| "mathRound DNaN = NaN"
| "mathRound DPosInfinity = PosInfinity"
| "mathRound DNegInfinity = NegInfinity"

text \<open>\<^verbatim>\<open>Math.round((time / totalWeeklyTime) * 100)\<close>\<close>

definition weeklyPercent :: "number \<Rightarrow> number \<Rightarrow> number" where
  "weeklyPercent time whole =
     mathRound (jsTimes (jsDivide (asDouble time) (asDouble whole)) (Finite 100))"

text \<open>The rows under the pie chart, one for each bucket with time in it, and the panel
  itself, which shows them only when the total is above 1.\<close>

definition weeklyLegend :: "(string \<times> number) list \<Rightarrow> (string \<times> number) list" where
  "weeklyLegend w =
     map (\<lambda>(cat, time). (cat, weeklyPercent time (totalWeeklyTime w)))
         (filter (\<lambda>(cat, time). jsGreater time (Num 0)) w)"

definition weeklyPanel :: "(string \<times> number) list \<Rightarrow> (string \<times> number) list option" where
  "weeklyPanel w =
     (if jsGreater (totalWeeklyTime w) (Num 1) then Some (weeklyLegend w) else None)"


section \<open>Sample data\<close>

text \<open>Concrete tasks, reflections, a state and a submitted form, for the closed instances
  of the theorems.\<close>

definition sampleTask :: "string \<Rightarrow> string \<Rightarrow> jsval \<Rightarrow> string \<Rightarrow> task" where
  "sampleTask ident day est st =
     \<lparr> id' = ident, date = day, title = ''Write report'', category = ''Work'',
       subCategory = ''General'', estTime = est, status = st \<rparr>"

definition sampleReflection :: "string \<Rightarrow> string \<Rightarrow> int \<Rightarrow> reflection" where
  "sampleReflection ident day m =
     \<lparr> id_r = ident, date_r = day, completion = Num 80, mood = Num m,
       overloaded_r = False, notes_r = Some ''steady day'' \<rparr>"

definition sampleState :: "task list \<Rightarrow> reflection list \<Rightarrow> string \<Rightarrow> string \<Rightarrow> state" where
  "sampleState ts rs day sub =
     \<lparr> categories = defaultCategories, tasks = ts, reflections = rs, selectedDate = day,
       selectedMainCat = ''Work'',
       taskForm = \<lparr> form_title = ''Plan week'', form_subCategory = sub, form_estTime = ''45'' \<rparr> \<rparr>"

definition sampleForm :: formData where
  "sampleForm = map_of [(''completion'', ''80''), (''mood'', ''7''), (''notes'', ''steady day''),
                        (''recycle_1'', ''on'')]"


section \<open>Rounding\<close>

text \<open>Integers up to \<open>2 ^ 53\<close> in magnitude are doubles, rounding keeps the sign, and a
  rounded integer is a double.\<close>

lemma bitlen_eqI:
  assumes "2 ^ k \<le> x" "x < 2 ^ Suc k"
  shows "bitlen x = int (Suc k)"
proof -
  have pos: "0 < x"
    using assms(1) by (rule less_le_trans [rotated]) simp
  from bitlen_bounds [OF pos]
  have lo: "2 ^ nat (bitlen x - 1) \<le> x" and hi: "x < 2 ^ nat (bitlen x)"
    by simp_all
  have "(2::int) ^ nat (bitlen x - 1) < 2 ^ Suc k"
    using lo assms(2) by (rule le_less_trans)
  then have a: "nat (bitlen x - 1) < Suc k"
    by (simp only: power_strict_increasing_iff one_less_numeral_iff semiring_norm)
  have "(2::int) ^ k < 2 ^ nat (bitlen x)"
    using assms(1) hi by (rule le_less_trans)
  then have b: "k < nat (bitlen x)"
    by (simp only: power_strict_increasing_iff one_less_numeral_iff semiring_norm)
  from a b show ?thesis
    by linarith
qed

lemma bitlen_le:
  assumes "0 \<le> x" "x < 2 ^ k"
  shows "bitlen x \<le> int k"
proof (cases "x = 0")
  case True
  then show ?thesis by simp
next
  case False
  with assms have pos: "0 < x" by simp
  from bitlen_bounds [OF pos] have "2 ^ nat (bitlen x - 1) \<le> x"
    by simp
  then have "(2::int) ^ nat (bitlen x - 1) < 2 ^ k"
    using assms(2) by (rule le_less_trans)
  then have "nat (bitlen x - 1) < k"
    by (simp only: power_strict_increasing_iff one_less_numeral_iff semiring_norm)
  then show ?thesis
    by linarith
qed

lemma roundToEven_multiple: "0 < q \<Longrightarrow> roundToEven (k * q) q = k * q"
  by (simp add: roundToEven_def)

lemma toDouble_exact:
  assumes "\<bar>n\<bar> \<le> 2 ^ 53"
  shows "toDouble n = Num n"
proof -
  let ?a = "\<bar>n\<bar>"
  have sg: "sgn n * ?a = n"
    by (simp add: abs_sgn mult.commute)
  have small: "?a < 2 ^ 1024"
    using assms by (rule le_less_trans) simp
  have "roundToEven ?a (2 ^ nat (bitlen ?a - 53)) = ?a"
  proof (cases "?a < 2 ^ 53")
    case True
    have "bitlen ?a \<le> int 53"
      by (rule bitlen_le [OF _ True]) simp
    then have "nat (bitlen ?a - 53) = 0"
      by simp
    then show ?thesis
      using roundToEven_multiple [of 1 ?a] by simp
  next
    case False
    with assms have e: "?a = 2 ^ 53" by simp
    have "bitlen ?a = int (Suc 53)"
      by (rule bitlen_eqI) (simp_all add: e)
    then have "nat (bitlen ?a - 53) = 1"
      by simp
    then show ?thesis
      using roundToEven_multiple [of 2 "2 ^ 52"] e by simp
  qed
  with small sg show ?thesis
    by (simp add: toDouble_def Let_def)
qed

lemma roundToEven_cases:
  "roundToEven x q = x div q * q \<or> roundToEven x q = (x div q + 1) * q"
  by (simp add: roundToEven_def Let_def)

lemma significand_bounds:
  assumes "2 ^ 53 \<le> a"
  shows "2 ^ 52 \<le> a div 2 ^ nat (bitlen a - 53)" "a div 2 ^ nat (bitlen a - 53) < 2 ^ 53"
proof -
  let ?s = "nat (bitlen a - 53)"
  let ?q = "(2::int) ^ ?s"
  have pos: "0 < a"
    using assms by (rule less_le_trans [rotated]) simp
  from bitlen_bounds [OF pos]
  have lo: "2 ^ nat (bitlen a - 1) \<le> a" and hi: "a < 2 ^ nat (bitlen a)"
    by simp_all
  have "(2::int) ^ 53 < 2 ^ nat (bitlen a)"
    using assms hi by (rule le_less_trans)
  then have "53 < nat (bitlen a)"
    by (simp only: power_strict_increasing_iff one_less_numeral_iff semiring_norm)
  then have e: "nat (bitlen a - 1) = 52 + ?s" "nat (bitlen a) = 53 + ?s"
    by linarith+
  have q: "0 < ?q" by simp
  from lo have l: "2 ^ 52 * ?q \<le> a"
    by (simp only: e power_add)
  from hi have h: "a < 2 ^ 53 * ?q"
    by (simp only: e power_add)
  have "(2 ^ 52 * ?q) div ?q \<le> a div ?q"
    using l q by (rule zdiv_mono1)
  then show "2 ^ 52 \<le> a div ?q"
    by simp
  have "a div ?q * ?q + a mod ?q = a"
    by (rule div_mult_mod_eq)
  moreover have "0 \<le> a mod ?q"
    using q by (rule pos_mod_sign)
  ultimately have "a div ?q * ?q \<le> a"
    by linarith
  then have "a div ?q * ?q < 2 ^ 53 * ?q"
    using h by (rule le_less_trans)
  then show "a div ?q < 2 ^ 53"
    using q by (simp only: mult_less_cancel_right_pos)
qed

lemma double_shape:
  assumes "2 ^ 52 \<le> k" "k \<le> 2 ^ 53"
  shows "roundToEven (k * 2 ^ s) (2 ^ nat (bitlen (k * 2 ^ s) - 53)) = k * 2 ^ s"
proof (cases "k < 2 ^ 53")
  case True
  have kp: "0 < k"
    using assms(1) by (rule less_le_trans [rotated]) simp
  have "bitlen k = int (Suc 52)"
    using assms(1) True by (intro bitlen_eqI) simp_all
  then have "bitlen (k * 2 ^ s) = 53 + int s"
    by (simp add: bitlen_pow2 [OF kp])
  then have "nat (bitlen (k * 2 ^ s) - 53) = s"
    by simp
  then show ?thesis
    by (simp add: roundToEven_multiple)
next
  case False
  with assms have k: "k = 2 ^ 53" by simp
  have "bitlen (2 ^ 53 * 2 ^ s :: int) = bitlen (2 ^ 53) + int s"
    by (rule bitlen_pow2) simp
  moreover have "bitlen (2 ^ 53 :: int) = int (Suc 53)"
    by (rule bitlen_eqI) simp_all
  ultimately have "nat (bitlen (k * 2 ^ s) - 53) = Suc s"
    by (simp add: k)
  moreover have "k * 2 ^ s = 2 ^ 52 * 2 ^ Suc s"
    by (simp add: k)
  ultimately show ?thesis
    by (simp only: roundToEven_multiple zero_less_power zero_less_numeral)
qed

text \<open>The rounded magnitude: either the integer itself, or a significand of 53 bits
  times a power of two.\<close>

lemma rounded_shape:
  assumes "0 \<le> a"
  defines "r \<equiv> roundToEven a (2 ^ nat (bitlen a - 53))"
  shows "(a \<le> 2 ^ 53 \<and> r = a) \<or> (\<exists>k s. 2 ^ 52 \<le> k \<and> k \<le> 2 ^ 53 \<and> r = k * 2 ^ s)"
proof (cases "a \<le> 2 ^ 53")
  case True
  then have "\<bar>a\<bar> \<le> 2 ^ 53"
    using assms(1) by simp
  from toDouble_exact [OF this] have "toDouble a = Num a" .
  moreover have "\<bar>a\<bar> = a" using assms(1) by simp
  moreover have "a < 2 ^ 1024"
    using True by (rule le_less_trans) simp
  ultimately have "r = a"
  proof -
    have "roundToEven a (2 ^ nat (bitlen a - 53)) = a"
    proof (cases "a < 2 ^ 53")
      case True
      have "bitlen a \<le> int 53"
        by (rule bitlen_le [OF assms(1) True])
      then have "nat (bitlen a - 53) = 0"
        by simp
      then show ?thesis
        using roundToEven_multiple [of 1 a] by simp
    next
      case False
      with \<open>a \<le> 2 ^ 53\<close> have e: "a = 2 ^ 53" by simp
      show ?thesis
        unfolding e using double_shape [of "2 ^ 53" 0] by simp
    qed
    then show ?thesis by (simp add: r_def)
  qed
  with True show ?thesis by simp
next
  case False
  then have big: "2 ^ 53 \<le> a" by simp
  let ?q = "(2::int) ^ nat (bitlen a - 53)"
  note b = significand_bounds [OF big]
  from roundToEven_cases [of a ?q]
  have "r = a div ?q * ?q \<or> r = (a div ?q + 1) * ?q"
    by (simp only: r_def)
  then show ?thesis
  proof
    assume "r = a div ?q * ?q"
    with b show ?thesis
      by (intro disjI2 exI [of _ "a div ?q"] exI [of _ "nat (bitlen a - 53)"]) simp
  next
    assume "r = (a div ?q + 1) * ?q"
    with b show ?thesis
      by (intro disjI2 exI [of _ "a div ?q + 1"] exI [of _ "nat (bitlen a - 53)"]) simp
  qed
qed

lemma rounded_pos:
  assumes "0 < a"
  shows "0 < roundToEven a (2 ^ nat (bitlen a - 53))"
proof -
  from assms have "0 \<le> a" by simp
  from rounded_shape [OF this] show ?thesis
  proof (elim disjE conjE exE)
    assume "roundToEven a (2 ^ nat (bitlen a - 53)) = a"
    with assms show ?thesis by simp
  next
    fix k :: int and s :: nat
    assume k: "2 ^ 52 \<le> k" and r: "roundToEven a (2 ^ nat (bitlen a - 53)) = k * 2 ^ s"
    have "0 < k"
      using k by (rule less_le_trans [rotated]) simp
    then show ?thesis
      by (simp add: r)
  qed
qed

lemma rounded_fixed:
  assumes "0 \<le> a"
  defines "r \<equiv> roundToEven a (2 ^ nat (bitlen a - 53))"
  shows "roundToEven r (2 ^ nat (bitlen r - 53)) = r"
proof -
  from rounded_shape [OF assms(1)]
  have "(a \<le> 2 ^ 53 \<and> r = a) \<or> (\<exists>k s. 2 ^ 52 \<le> k \<and> k \<le> 2 ^ 53 \<and> r = k * 2 ^ s)"
    by (simp only: r_def)
  then show ?thesis
  proof (elim disjE conjE exE)
    assume "r = a"
    then show ?thesis
      by (simp add: r_def)
  next
    fix k :: int and s :: nat
    assume "2 ^ 52 \<le> k" "k \<le> 2 ^ 53" "r = k * 2 ^ s"
    then show ?thesis
      by (simp only: double_shape)
  qed
qed

lemma toDouble_idem:
  assumes "toDouble n = Num m"
  shows "toDouble m = Num m"
proof -
  let ?r = "roundToEven \<bar>n\<bar> (2 ^ nat (bitlen \<bar>n\<bar> - 53))"
  from assms have small: "\<not> 2 ^ 1024 \<le> ?r" and m: "m = sgn n * ?r"
    by (simp_all add: toDouble_def Let_def split: if_splits)
  have r0: "0 \<le> ?r"
  proof (cases "n = 0")
    case True
    then show ?thesis by (simp add: roundToEven_def)
  next
    case False
    then have "0 < \<bar>n\<bar>" by simp
    from rounded_pos [OF this] show ?thesis by simp
  qed
  show ?thesis
  proof (cases "n = 0")
    case True
    with m have "m = 0" by simp
    then show ?thesis by (simp add: toDouble_exact)
  next
    case False
    then have "\<bar>sgn n\<bar> = 1" by (simp add: abs_sgn_eq)
    then have am: "\<bar>m\<bar> = ?r"
      using r0 by (simp add: m abs_mult)
    have "0 < \<bar>n\<bar>" using False by simp
    from rounded_pos [OF this] have rp: "0 < ?r" .
    have sg: "sgn m = sgn n"
      using rp by (simp add: m sgn_mult)
    have fixed: "roundToEven ?r (2 ^ nat (bitlen ?r - 53)) = ?r"
      by (rule rounded_fixed) simp
    show ?thesis
      unfolding toDouble_def Let_def am fixed
      using small by (simp add: sg m [symmetric])
  qed
qed

lemma toDouble_isDouble: "isDouble (toDouble n)"
  by (cases "toDouble n") (simp_all add: isDouble_def toDouble_idem)

lemma jsAdd_isDouble: "isDouble (jsAdd a b)"
  by (cases "(a, b)" rule: jsAdd.cases) (simp_all add: toDouble_isDouble, simp_all add: isDouble_def)

lemma jsAdd_zero: "isDouble a \<Longrightarrow> jsAdd a (Num 0) = a"
  by (cases a) (simp_all add: isDouble_def)


lemma rounded_big:
  assumes "2 ^ 53 \<le> a"
  shows "2 ^ 53 \<le> roundToEven a (2 ^ nat (bitlen a - 53))"
proof -
  let ?s = "nat (bitlen a - 53)"
  let ?q = "(2::int) ^ ?s"
  have pos: "0 < a"
    using assms by (rule less_le_trans [rotated]) simp
  from bitlen_bounds [OF pos] have "a < 2 ^ nat (bitlen a)"
    by simp
  with assms have "(2::int) ^ 53 < 2 ^ nat (bitlen a)"
    by (rule le_less_trans)
  then have "53 < nat (bitlen a)"
    by (simp only: power_strict_increasing_iff one_less_numeral_iff semiring_norm)
  then have "1 \<le> ?s"
    by linarith
  then have "(2::int) ^ 1 \<le> ?q"
    by (intro power_increasing) simp_all
  then have q: "2 \<le> ?q" by simp
  note b = significand_bounds(1) [OF assms]
  have "2 ^ 52 * 2 \<le> a div ?q * ?q"
    using b q by (intro mult_mono) simp_all
  then have m: "2 ^ 53 \<le> a div ?q * ?q"
    by simp
  from b have "a div ?q \<le> a div ?q + 1" by simp
  then have "a div ?q * ?q \<le> (a div ?q + 1) * ?q"
    using q by (intro mult_right_mono) simp_all
  with m have "2 ^ 53 \<le> (a div ?q + 1) * ?q"
    by (rule order_trans)
  with m roundToEven_cases [of a ?q] show ?thesis
    by auto
qed

text \<open>Only the integer itself rounds to a whole number below \<open>2 ^ 53\<close>.\<close>

lemma toDouble_small_inj:
  assumes "toDouble v = Num x" "\<bar>x\<bar> < 2 ^ 53"
  shows "v = x"
proof (cases "\<bar>v\<bar> \<le> 2 ^ 53")
  case True
  from toDouble_exact [OF this] assms(1) show ?thesis by simp
next
  case False
  then have big: "2 ^ 53 \<le> \<bar>v\<bar>" by simp
  let ?r = "roundToEven \<bar>v\<bar> (2 ^ nat (bitlen \<bar>v\<bar> - 53))"
  have r: "2 ^ 53 \<le> ?r"
    using big by (rule rounded_big)
  from assms(1) have "x = sgn v * ?r"
    by (simp add: toDouble_def Let_def split: if_splits)
  moreover have "\<bar>sgn v\<bar> = 1"
    using big by (simp add: abs_sgn_eq)
  ultimately have "\<bar>x\<bar> = \<bar>?r\<bar>"
    by (simp add: abs_mult)
  with r assms(2) show ?thesis
    by simp
qed

lemma shortestDecimal_small:
  assumes "0 \<le> x" "x < 2 ^ 53"
  shows "shortestDecimal x = x"
proof -
  define cs where "cs = concat (map (decimalCandidates x) [1..<18])"
  have all: "v = x" if "v \<in> set cs" for v
  proof -
    from that have "toDouble v = Num x"
      unfolding cs_def by (auto simp: decimalCandidates_def Let_def split: if_splits)
    moreover have "\<bar>x\<bar> < 2 ^ 53"
      using assms by simp
    ultimately show ?thesis
      by (rule toDouble_small_inj)
  qed
  have s: "shortestDecimal x = (case cs of [] \<Rightarrow> x | v # vs \<Rightarrow> v)"
    by (simp only: shortestDecimal_def cs_def)
  show ?thesis
  proof (cases cs)
    case Nil
    then show ?thesis by (simp add: s)
  next
    case (Cons v vs)
    then have "v \<in> set cs" by simp
    then have "v = x" by (rule all)
    with Cons show ?thesis by (simp add: s)
  qed
qed

lemma toStringNumber_small: "\<bar>n\<bar> < 2 ^ 53 \<Longrightarrow> toStringNumber (Num n) = showInt n"
proof -
  assume a: "\<bar>n\<bar> < 2 ^ 53"
  then have "\<bar>n\<bar> < 10 ^ 21"
    by (rule less_trans) simp
  moreover have "shortestDecimal \<bar>n\<bar> = \<bar>n\<bar>"
    using a by (intro shortestDecimal_small) simp_all
  ultimately show ?thesis
    by (simp add: sgn_mult_abs)
qed

section \<open>Reading numbers back\<close>

lemma digit_cases:
  "d < 10 \<Longrightarrow> d = 0 \<or> d = 1 \<or> d = 2 \<or> d = 3 \<or> d = 4 \<or> d = 5 \<or> d = 6 \<or> d = 7 \<or> d = 8 \<or> d = (9::nat)"
  by arith

lemma digitValue_digitChar:
  assumes "d < 10"
  shows "digitValue 10 (digitChar d) = Some (int d)"
  using digit_cases [OF assms]
  by (elim disjE) (simp_all add: digitValue_def digitChar_def decimalDigits_def)

lemma digitChar_not_x:
  assumes "d < 10"
  shows "digitChar d \<noteq> CHR ''x'' \<and> digitChar d \<noteq> CHR ''X'' \<and> digitChar d \<noteq> CHR ''-''
         \<and> digitChar d \<noteq> CHR ''+'' \<and> \<not> isWhiteSpace (digitChar d)"
  using digit_cases [OF assms]
  by (elim disjE) (simp_all add: digitChar_def isWhiteSpace_def)

lemma digits_nonempty: "digits n \<noteq> []"
  by (subst digits.simps) simp

lemma digits_all_decimal: "c \<in> set (digits n) \<Longrightarrow> digitValue 10 c \<noteq> None"
proof (induction n rule: digits.induct)
  case (1 n)
  show ?case
  proof (cases "n < 10")
    case True
    with "1.prems" show ?thesis
      by (simp add: digits.simps [of n] digitValue_digitChar)
  next
    case False
    have "n mod 10 < 10" by simp
    with False "1.prems" "1.IH" show ?thesis
      by (auto simp: digitValue_digitChar digits.simps [of n])
  qed
qed

lemma digits_chars: "c \<in> set (digits n) \<Longrightarrow> \<exists>d<10. c = digitChar d"
proof (induction n rule: digits.induct)
  case (1 n)
  show ?case
  proof (cases "n < 10")
    case True
    with "1.prems" show ?thesis
      by (auto simp: digits.simps [of n])
  next
    case False
    have "n mod 10 < 10" by simp
    then have "\<exists>d<10. digitChar (n mod 10) = digitChar d" by blast
    with False "1.prems" "1.IH" show ?thesis
      by (auto simp: digits.simps [of n])
  qed
qed

lemma digitsValue_snoc:
  "digitsValue r (cs @ [c]) = digitsValue r cs * r + (case digitValue r c of Some d \<Rightarrow> d | None \<Rightarrow> 0)"
  by (simp add: digitsValue_def)

lemma digitsValue_digits: "digitsValue 10 (digits n) = int n"
proof (induction n rule: digits.induct)
  case (1 n)
  show ?case
  proof (cases "n < 10")
    case True
    then show ?thesis
      by (simp add: digits.simps [of n] digitsValue_def digitValue_digitChar)
  next
    case False
    have m: "n mod 10 < 10" by simp
    have "int (n div 10 * 10 + n mod 10) = int n" by simp
    then have "int (n div 10) * 10 + int (n mod 10) = int n"
      by (simp only: of_nat_add of_nat_mult of_nat_numeral)
    with False "1.IH" m show ?thesis
      by (simp add: digits.simps [of n] digitsValue_snoc digitValue_digitChar)
  qed
qed

lemma parseDigits_digits: "parseDigits sign 10 (digits n) = toDouble (sign * int n)"
proof -
  have tw: "takeWhile (\<lambda>c. digitValue 10 c \<noteq> None) (digits n) = digits n"
    by (rule takeWhile_eq_all_conv [THEN iffD2]) (simp add: digits_all_decimal)
  show ?thesis
    unfolding parseDigits_def Let_def tw
    by (simp add: digits_nonempty digitsValue_digits)
qed

lemma parseUnsigned_plain:
  "\<forall>c\<in>set s. c \<noteq> CHR ''x'' \<and> c \<noteq> CHR ''X'' \<Longrightarrow> parseUnsigned sign s = parseDigits sign 10 s"
  by (cases "(sign, s)" rule: parseUnsigned.cases) auto

lemma parseUnsigned_digits: "parseUnsigned sign (digits n) = toDouble (sign * int n)"
proof -
  have "\<forall>c\<in>set (digits n). c \<noteq> CHR ''x'' \<and> c \<noteq> CHR ''X''"
    by (auto dest!: digits_chars simp: digitChar_not_x)
  then show ?thesis
    by (simp add: parseUnsigned_plain parseDigits_digits)
qed

lemma digits_head: "\<exists>d cs. d < 10 \<and> digits n = digitChar d # cs"
proof -
  obtain c cs where e: "digits n = c # cs"
    using digits_nonempty [of n] by (cases "digits n") auto
  then have "c \<in> set (digits n)" by simp
  then obtain d where "d < 10" "c = digitChar d"
    using digits_chars by blast
  with e show ?thesis by blast
qed

lemma parseIntString_showInt: "parseIntString (showInt n) = toDouble n"
proof -
  show ?thesis
  proof (cases "n < 0")
    case True
    have "\<not> isWhiteSpace CHR ''-''" by (simp add: isWhiteSpace_def)
    with True show ?thesis
      by (simp add: parseIntString_def showInt_def parseUnsigned_digits)
  next
    case False
    obtain d cs where d: "d < 10" and e: "digits (nat n) = digitChar d # cs"
      using digits_head by blast
    have "parseSigned (digitChar d # cs) = parseUnsigned 1 (digitChar d # cs)"
      using digitChar_not_x [OF d] by simp
    moreover have "dropWhile isWhiteSpace (digitChar d # cs) = digitChar d # cs"
      using digitChar_not_x [OF d] by simp
    ultimately have "parseIntString (digits (nat n)) = parseUnsigned 1 (digits (nat n))"
      by (simp add: parseIntString_def e)
    with False show ?thesis
      by (simp add: showInt_def parseUnsigned_digits)
  qed
qed

lemma parseInt_Num: "\<bar>n\<bar> < 2 ^ 53 \<Longrightarrow> parseInt (JNumber (Num n)) = Num n"
proof -
  assume a: "\<bar>n\<bar> < 2 ^ 53"
  then have "toDouble n = Num n"
    by (intro toDouble_exact) simp
  with a show ?thesis
    by (simp only: parseInt_def toString.simps toStringNumber_small parseIntString_showInt)
qed

section \<open>Overload statistics\<close>

lemma estContribution_of_number:
  "estTime t = JNumber (Num n) \<Longrightarrow> \<bar>n\<bar> < 2 ^ 53 \<Longrightarrow> estContribution t = Num n"
  by (simp add: estContribution_def jsOr_def parseInt_Num)

lemma estContribution_of_NaN: "parseInt (estTime t) = NaN \<Longrightarrow> estContribution t = Num 0"
  by (simp add: estContribution_def jsOr_def)

text \<open>While the magnitudes seen so far stay within \<open>2 ^ 53\<close>, the running total is the
  exact sum.\<close>

lemma fold_jsAdd_exact:
  assumes "\<forall>t\<in>set ts. estContribution t = Num (m t)"
    and "\<bar>a\<bar> + sum_list (map (\<lambda>t. \<bar>m t\<bar>) ts) \<le> 2 ^ 53"
  shows "fold (\<lambda>t total. jsAdd total (estContribution t)) ts (Num a)
         = Num (a + sum_list (map m ts))"
  using assms
proof (induction ts arbitrary: a)
  case Nil
  then show ?case by simp
next
  case (Cons t ts)
  have c: "estContribution t = Num (m t)"
    using Cons.prems(1) by simp
  have nn: "0 \<le> sum_list (map (\<lambda>t. \<bar>m t\<bar>) ts)"
    by (rule sum_list_nonneg) auto
  have "\<bar>a + m t\<bar> \<le> \<bar>a\<bar> + \<bar>m t\<bar>"
    by (rule abs_triangle_ineq)
  with Cons.prems(2) nn have b: "\<bar>a + m t\<bar> \<le> 2 ^ 53"
    and r: "\<bar>a + m t\<bar> + sum_list (map (\<lambda>t. \<bar>m t\<bar>) ts) \<le> 2 ^ 53"
    by simp_all
  have "fold (\<lambda>t total. jsAdd total (estContribution t)) ts (Num (a + m t))
        = Num (a + m t + sum_list (map m ts))"
    using Cons.prems(1) r by (intro Cons.IH) simp_all
  then show ?case
    by (simp add: c toDouble_exact [OF b] add.assoc)
qed

lemma sumMins_exact:
  assumes "\<forall>t\<in>set ts. estTime t = JNumber (Num (m t))"
    and "sum_list (map (\<lambda>t. \<bar>m t\<bar>) ts) < 2 ^ 53"
  shows "sumMins ts = Num (sum_list (map m ts))"
proof -
  have "\<bar>m t\<bar> < 2 ^ 53" if "t \<in> set ts" for t
  proof -
    have "\<bar>m t\<bar> \<le> sum_list (map (\<lambda>t. \<bar>m t\<bar>) ts)"
      using that by (intro member_le_sum_list) auto
    with assms(2) show ?thesis by simp
  qed
  with assms(1) have "\<forall>t\<in>set ts. estContribution t = Num (m t)"
    by (simp add: estContribution_of_number)
  from fold_jsAdd_exact [OF this, of 0] assms(2) show ?thesis
    by (simp add: sumMins_def)
qed

lemma fold_isDouble:
  "isDouble a \<Longrightarrow> isDouble (fold (\<lambda>t total. jsAdd total (estContribution t)) ts a)"
  by (induction ts arbitrary: a) (simp_all add: jsAdd_isDouble)

lemma sumMins_isDouble: "isDouble (sumMins ts)"
  unfolding sumMins_def by (rule fold_isDouble) (simp add: isDouble_def toDouble_exact)

lemma sumMins_skip:
  assumes "parseInt (estTime t) = NaN"
  shows "sumMins (xs @ t # ys) = sumMins (xs @ ys)"
proof -
  have "jsAdd (sumMins xs) (Num 0) = sumMins xs"
    using sumMins_isDouble by (rule jsAdd_zero)
  then show ?thesis
    by (simp add: sumMins_def estContribution_of_NaN [OF assms])
qed

lemma sumMins_all_malformed:
  assumes "\<forall>t\<in>set vs. parseInt (estTime t) = NaN"
  shows "sumMins vs = Num 0"
proof -
  have "fold (\<lambda>t total. jsAdd total (estContribution t)) vs (Num 0) = Num 0"
    using assms by (induction vs) (simp_all add: estContribution_of_NaN toDouble_exact)
  then show ?thesis
    by (simp add: sumMins_def)
qed

lemma parseInt_malformed:
  "parseInt JUndefined = NaN" "parseInt JNull = NaN" "parseInt (JString []) = NaN"
  "parseInt (JNumber NaN) = NaN" "parseInt (JString ''soon'') = NaN" "parseInt (JBool b) = NaN"
  by (simp_all add: parseInt_def parseIntString_def isWhiteSpace_def parseDigits_def
      digitValue_def decimalDigits_def)

text \<open>The print of the double \<open>10 ^ 21\<close> and what \<^verbatim>\<open>parseInt\<close> reads from it.\<close>

lemma toDouble_sextillion:
  "toDouble 1000000000000000000000 = Num 1000000000000000000000"
  "toDouble 2000000000000000000000 = Num 2000000000000000000000"
proof -
  have "bitlen 1000000000000000000000 = int (Suc 69)"
    by (rule bitlen_eqI) simp_all
  then have a: "nat (bitlen \<bar>1000000000000000000000\<bar> - 53) = 17"
    by simp
  show "toDouble 1000000000000000000000 = Num 1000000000000000000000"
    unfolding toDouble_def Let_def a by (simp add: roundToEven_def)
  have "bitlen 2000000000000000000000 = int (Suc 70)"
    by (rule bitlen_eqI) simp_all
  then have b: "nat (bitlen \<bar>2000000000000000000000\<bar> - 53) = 18"
    by simp
  show "toDouble 2000000000000000000000 = Num 2000000000000000000000"
    unfolding toDouble_def Let_def b by (simp add: roundToEven_def)
qed

lemma digits_sextillion:
  "digits 1000000000000000000000 = ''1000000000000000000000''"
  by (simp add: digits.simps digitChar_def)

lemma shortestDecimal_sextillion:
  "shortestDecimal 1000000000000000000000 = 1000000000000000000000"
proof -
  have "decimalCandidates 1000000000000000000000 1 = [1000000000000000000000]"
    by (simp add: decimalCandidates_def digits_sextillion toDouble_sextillion)
  then show ?thesis
    by (simp add: shortestDecimal_def upt_conv_Cons)
qed

lemma toString_sextillion:
  "toStringNumber (Num 1000000000000000000000) = ''1e+21''"
proof -
  have ds: "digits (nat (shortestDecimal 1000000000000000000000)) = ''1000000000000000000000''"
    by (simp add: shortestDecimal_sextillion digits_sextillion)
  have sz: "stripZeros ''1000000000000000000000'' = ''1''"
    by (simp add: stripZeros_def)
  have dl: "digits (length ''1000000000000000000000'' - 1) = ''21''"
    by code_simp
  have "exponentForm 1000000000000000000000 = ''1e+21''"
    unfolding exponentForm_def Let_def ds sz dl by simp
  then show ?thesis
    by simp
qed

lemma parseInt_sextillion:
  "parseInt (JNumber (Num 1000000000000000000000)) = Num 1"
proof -
  have "parseIntString ''1e+21'' = Num 1"
    by (simp add: parseIntString_def isWhiteSpace_def parseDigits_def digitValue_def
        decimalDigits_def digitsValue_def toDouble_exact)
  then show ?thesis
    by (simp only: parseInt_def toString.simps toString_sextillion)
qed

text \<open>
  Claim C8. For every task list and date, the viewed tasks are exactly the tasks of the
  list whose date field equals the date, in the order they have in the list: the viewed
  tasks are the one subsequence of the list that holds each task of that date as often
  as the list does, and nothing else.
\<close>

theorem viewedTasks_exact:
  "ys = viewedTasks T D \<longleftrightarrow>
     subseq ys T \<and> mset ys = filter_mset (\<lambda>t. date t = D) (mset T)"
proof
  assume "ys = viewedTasks T D"
  then show "subseq ys T \<and> mset ys = filter_mset (\<lambda>t. date t = D) (mset T)"
    by (simp add: viewedTasks_def)
next
  assume a: "subseq ys T \<and> mset ys = filter_mset (\<lambda>t. date t = D) (mset T)"
  let ?P = "\<lambda>t. date t = D"
  from a have m: "mset ys = mset (filter ?P T)"
    by simp
  then have "set ys = set (filter ?P T)"
    by (rule mset_eq_setD)
  then have "filter ?P ys = ys"
    by (simp add: filter_id_conv)
  moreover from a have "subseq (filter ?P ys) (filter ?P T)"
    by (simp add: subseq_filter)
  ultimately have "subseq ys (filter ?P T)"
    by simp
  moreover from m have "length ys = length (filter ?P T)"
    by (rule mset_eq_length)
  ultimately have "ys = filter ?P T"
    by (rule subseq_same_length)
  then show "ys = viewedTasks T D"
    by (simp add: viewedTasks_def)
qed

text \<open>
  Claim C1, within the integers that doubles hold exactly. Where the estimates of the
  tasks of the date are integers whose magnitudes sum to less than \<open>2 ^ 53\<close>, the overload
  flag is true exactly when the estimates sum to more than 480 or there are more than 6
  such tasks. Five tasks of 50 minutes are not overloaded; seven tasks of 10 minutes and
  one task of 500 minutes are.
\<close>

theorem overload_flag_iff:
  "((\<forall>t\<in>set (viewedTasks ts d). estTime t = JNumber (Num (mins t)))
      \<and> sum_list (map (\<lambda>t. \<bar>mins t\<bar>) (viewedTasks ts d)) < 2 ^ 53 \<longrightarrow>
      (isOverloaded (overloadStats (viewedTasks ts d)) \<longleftrightarrow>
         480 < sum_list (map mins (filter (\<lambda>t. date t = d) ts))
         \<or> 6 < length (filter (\<lambda>t. date t = d) ts)))
   \<and> (date a = d \<and> estTime a = JNumber (Num 50) \<longrightarrow>
        \<not> isOverloaded (overloadStats (viewedTasks (replicate 5 a) d)))
   \<and> (date b = d \<and> estTime b = JNumber (Num 10) \<longrightarrow>
        isOverloaded (overloadStats (viewedTasks (replicate 7 b) d)))
   \<and> (date c = d \<and> estTime c = JNumber (Num 500) \<longrightarrow>
        isOverloaded (overloadStats (viewedTasks [c] d)))"
proof -
  have gen: "isOverloaded (overloadStats (viewedTasks us d)) \<longleftrightarrow>
         480 < sum_list (map m (filter (\<lambda>t. date t = d) us))
         \<or> 6 < length (filter (\<lambda>t. date t = d) us)"
    if h: "\<forall>t\<in>set (viewedTasks us d). estTime t = JNumber (Num (m t))"
      and s: "sum_list (map (\<lambda>t. \<bar>m t\<bar>) (viewedTasks us d)) < 2 ^ 53" for us m
  proof -
    have "sumMins (viewedTasks us d) = Num (sum_list (map m (viewedTasks us d)))"
      using h s by (rule sumMins_exact)
    then show ?thesis
      by (simp add: overloadStats_def Let_def viewedTasks_def)
  qed
  have five: "\<not> isOverloaded (overloadStats (viewedTasks (replicate 5 a) d))"
    if "date a = d" "estTime a = JNumber (Num 50)"
    using that gen [of "replicate 5 a" "\<lambda>_. 50"]
    by (simp add: viewedTasks_def sum_list_replicate)
  have seven: "isOverloaded (overloadStats (viewedTasks (replicate 7 b) d))"
    if "date b = d" "estTime b = JNumber (Num 10)"
    using that gen [of "replicate 7 b" "\<lambda>_. 10"]
    by (simp add: viewedTasks_def sum_list_replicate)
  have one: "isOverloaded (overloadStats (viewedTasks [c] d))"
    if "date c = d" "estTime c = JNumber (Num 500)"
    using that gen [of "[c]" "\<lambda>_. 500"]
    by (simp add: viewedTasks_def)
  have C: "(\<forall>t\<in>set (viewedTasks ts d). estTime t = JNumber (Num (mins t)))
      \<and> sum_list (map (\<lambda>t. \<bar>mins t\<bar>) (viewedTasks ts d)) < 2 ^ 53 \<longrightarrow>
      (isOverloaded (overloadStats (viewedTasks ts d)) \<longleftrightarrow>
         480 < sum_list (map mins (filter (\<lambda>t. date t = d) ts))
         \<or> 6 < length (filter (\<lambda>t. date t = d) ts))"
    using gen [of ts mins] by (intro impI) (elim conjE)
  have D: "date a = d \<and> estTime a = JNumber (Num 50) \<longrightarrow>
        \<not> isOverloaded (overloadStats (viewedTasks (replicate 5 a) d))"
    using five by (intro impI) (elim conjE)
  have E: "date b = d \<and> estTime b = JNumber (Num 10) \<longrightarrow>
        isOverloaded (overloadStats (viewedTasks (replicate 7 b) d))"
    using seven by (intro impI) (elim conjE)
  have F: "date c = d \<and> estTime c = JNumber (Num 500) \<longrightarrow>
        isOverloaded (overloadStats (viewedTasks [c] d))"
    using one by (intro impI) (elim conjE)
  show ?thesis
    by (intro conjI C D E F)
qed

theorem overload_flag_iff_witness:
  "isOverloaded (overloadStats (viewedTasks
      [sampleTask ''1'' ''2024-03-31'' (JNumber (Num 300)) ''Done'',
       sampleTask ''2'' ''2024-04-01'' (JNumber (Num 400)) ''Done'',
       sampleTask ''3'' ''2024-03-31'' (JNumber (Num 200)) ''Not Started''] ''2024-03-31''))
   \<and> \<not> isOverloaded (overloadStats (viewedTasks
        (replicate 5 (sampleTask ''4'' ''2024-03-31'' (JNumber (Num 50)) ''Done'')) ''2024-03-31''))
   \<and> isOverloaded (overloadStats (viewedTasks
        (replicate 7 (sampleTask ''5'' ''2024-03-31'' (JNumber (Num 10)) ''Done'')) ''2024-03-31''))
   \<and> isOverloaded (overloadStats (viewedTasks
        [sampleTask ''6'' ''2024-03-31'' (JNumber (Num 500)) ''Done''] ''2024-03-31''))"
proof -
  let ?t1 = "sampleTask ''1'' ''2024-03-31'' (JNumber (Num 300)) ''Done''"
  let ?ts = "[?t1, sampleTask ''2'' ''2024-04-01'' (JNumber (Num 400)) ''Done'',
              sampleTask ''3'' ''2024-03-31'' (JNumber (Num 200)) ''Not Started'']"
  let ?a = "sampleTask ''4'' ''2024-03-31'' (JNumber (Num 50)) ''Done''"
  let ?b = "sampleTask ''5'' ''2024-03-31'' (JNumber (Num 10)) ''Done''"
  let ?c = "sampleTask ''6'' ''2024-03-31'' (JNumber (Num 500)) ''Done''"
  let ?m = "\<lambda>t. if id' t = ''1'' then 300 else (200::int)"
  note t = overload_flag_iff [of ?ts "''2024-03-31''" ?m ?a ?b ?c]
  have hyp: "(\<forall>t\<in>set (viewedTasks ?ts ''2024-03-31''). estTime t = JNumber (Num (?m t)))
      \<and> sum_list (map (\<lambda>t. \<bar>?m t\<bar>) (viewedTasks ?ts ''2024-03-31'')) < 2 ^ 53"
    by (simp add: viewedTasks_def sampleTask_def)
  have e: "date ?a = ''2024-03-31'' \<and> estTime ?a = JNumber (Num 50)"
          "date ?b = ''2024-03-31'' \<and> estTime ?b = JNumber (Num 10)"
          "date ?c = ''2024-03-31'' \<and> estTime ?c = JNumber (Num 500)"
    by (simp_all add: sampleTask_def)
  note t2 = t [THEN conjunct2]
  note t3 = t2 [THEN conjunct2]
  have "isOverloaded (overloadStats (viewedTasks ?ts ''2024-03-31'')) \<longleftrightarrow>
      480 < sum_list (map ?m (filter (\<lambda>t. date t = ''2024-03-31'') ?ts))
      \<or> 6 < length (filter (\<lambda>t. date t = ''2024-03-31'') ?ts)"
    by (rule mp [OF t [THEN conjunct1] hyp])
  then have r1: "isOverloaded (overloadStats (viewedTasks ?ts ''2024-03-31''))"
    by (simp add: sampleTask_def)
  have r3: "\<not> isOverloaded (overloadStats (viewedTasks (replicate 5 ?a) ''2024-03-31''))"
    by (rule mp [OF t2 [THEN conjunct1] e(1)])
  have r4: "isOverloaded (overloadStats (viewedTasks (replicate 7 ?b) ''2024-03-31''))"
    by (rule mp [OF t3 [THEN conjunct1] e(2)])
  have r5: "isOverloaded (overloadStats (viewedTasks [?c] ''2024-03-31''))"
    by (rule mp [OF t3 [THEN conjunct2] e(3)])
  show ?thesis
    by (intro conjI r1 r3 r4 r5)
qed

text \<open>
  The claim as it stands, for every task list, fails on a single task of \<open>10 ^ 21\<close>
  minutes, a double that the task form accepts. The statistics read the stored number
  through \<^verbatim>\<open>parseInt\<close>, which sees its print \<^verbatim>\<open>1e+21\<close> and returns 1: the flag is
  false with an estimate far above 480. It fails also where the running total leaves
  the integers that doubles hold exactly: the five estimates \<open>2 ^ 53 - 2\<close>, 2, 481,
  \<open>- (2 ^ 53 - 2)\<close> and -2 sum to 481, and the program's total is 480.
\<close>

theorem overload_flag_counterexample:
  "isDouble (Num 1000000000000000000000)
   \<and> parseIntString ''1000000000000000000000'' = Num 1000000000000000000000
   \<and> \<not> (isOverloaded (overloadStats (viewedTasks
            [sampleTask ''1'' ''2024-03-31'' (JNumber (Num 1000000000000000000000)) ''Done'']
            ''2024-03-31''))
        \<longleftrightarrow> 480 < sum_list (map (\<lambda>t. 1000000000000000000000 :: int)
                  (filter (\<lambda>t. date t = ''2024-03-31'')
                     [sampleTask ''1'' ''2024-03-31'' (JNumber (Num 1000000000000000000000)) ''Done'']))
            \<or> 6 < length (filter (\<lambda>t. date t = ''2024-03-31'')
                     [sampleTask ''1'' ''2024-03-31'' (JNumber (Num 1000000000000000000000)) ''Done'']))
   \<and> totalMins (overloadStats (viewedTasks
        (map (\<lambda>n. sampleTask ''2'' ''2024-03-31'' (JNumber (Num n)) ''Done'')
           [9007199254740990, 2, 481, - 9007199254740990, - 2]) ''2024-03-31'')) = Num 480
   \<and> \<not> isOverloaded (overloadStats (viewedTasks
        (map (\<lambda>n. sampleTask ''2'' ''2024-03-31'' (JNumber (Num n)) ''Done'')
           [9007199254740990, 2, 481, - 9007199254740990, - 2]) ''2024-03-31''))
   \<and> 480 < sum_list [9007199254740990, 2, 481, - 9007199254740990, - 2 :: int]"
proof -
  let ?t = "sampleTask ''1'' ''2024-03-31'' (JNumber (Num 1000000000000000000000)) ''Done''"
  let ?us = "map (\<lambda>n. sampleTask ''2'' ''2024-03-31'' (JNumber (Num n)) ''Done'')
           [9007199254740990, 2, 481, - 9007199254740990, - 2]"
  have d: "isDouble (Num 1000000000000000000000)"
    by (simp add: isDouble_def toDouble_sextillion)
  have "parseIntString (showInt 1000000000000000000000) = toDouble 1000000000000000000000"
    by (rule parseIntString_showInt)
  then have p: "parseIntString ''1000000000000000000000'' = Num 1000000000000000000000"
    by (simp add: showInt_def digits_sextillion toDouble_sextillion)
  have "estContribution ?t = Num 1"
    by (simp add: estContribution_def sampleTask_def parseInt_sextillion jsOr_def)
  then have "sumMins [?t] = Num 1"
    by (simp add: sumMins_def toDouble_exact)
  then have "\<not> isOverloaded (overloadStats (viewedTasks [?t] ''2024-03-31''))"
    by (simp add: overloadStats_def Let_def viewedTasks_def sampleTask_def)
  then have one: "\<not> (isOverloaded (overloadStats (viewedTasks [?t] ''2024-03-31''))
        \<longleftrightarrow> 480 < sum_list (map (\<lambda>t. 1000000000000000000000 :: int)
                  (filter (\<lambda>t. date t = ''2024-03-31'') [?t]))
            \<or> 6 < length (filter (\<lambda>t. date t = ''2024-03-31'') [?t]))"
    by (simp add: sampleTask_def)
  have c: "estContribution (sampleTask ''2'' ''2024-03-31'' (JNumber (Num n)) ''Done'') = Num n"
    if "\<bar>n\<bar> < 2 ^ 53" for n
    using that by (simp add: estContribution_of_number sampleTask_def)
  have "bitlen 9007199254741473 = int (Suc 53)"
    by (rule bitlen_eqI) simp_all
  then have "nat (bitlen \<bar>9007199254741473\<bar> - 53) = 1"
    by simp
  then have r: "toDouble 9007199254741473 = Num 9007199254741472"
    unfolding toDouble_def Let_def by (simp add: roundToEven_def)
  have v: "viewedTasks ?us ''2024-03-31'' = ?us"
    by (simp add: viewedTasks_def sampleTask_def)
  have s: "sumMins ?us = Num 480"
    by (simp add: sumMins_def c toDouble_exact r)
  then have two: "totalMins (overloadStats (viewedTasks ?us ''2024-03-31'')) = Num 480"
    and three: "\<not> isOverloaded (overloadStats (viewedTasks ?us ''2024-03-31''))"
    unfolding v by (simp_all add: overloadStats_def Let_def)
  have four: "480 < sum_list [9007199254740990, 2, 481, - 9007199254740990, - 2 :: int]"
    by simp
  show ?thesis
    by (intro conjI d p one two three four)
qed

text \<open>
  Claim C10. The statistics are defined for arbitrary task contents. A viewed task
  whose estimate does not parse as an integer (a missing field, an empty string, a
  word) adds 0 minutes: the total is what it is without the task. The task still
  counts, in the number of tasks and toward the threshold of more than 6 tasks: with
  it, the day is overloaded once the others number 6. A day of such tasks only has the
  total 0 and is overloaded exactly when there are more than 6 of them.
\<close>

theorem overload_malformed_estimate:
  "(parseInt (estTime t) = NaN \<longrightarrow>
      estContribution t = Num 0
      \<and> totalMins (overloadStats (xs @ t # ys)) = totalMins (overloadStats (xs @ ys))
      \<and> totalTasks (overloadStats (xs @ t # ys)) = Suc (totalTasks (overloadStats (xs @ ys)))
      \<and> (isOverloaded (overloadStats (xs @ t # ys)) \<longleftrightarrow>
           jsGreater (totalMins (overloadStats (xs @ ys))) (Num 480) \<or> 6 \<le> length (xs @ ys)))
   \<and> ((\<forall>t\<in>set vs. parseInt (estTime t) = NaN) \<longrightarrow>
        totalMins (overloadStats vs) = Num 0
        \<and> totalTasks (overloadStats vs) = length vs
        \<and> (isOverloaded (overloadStats vs) \<longleftrightarrow> 6 < length vs))
   \<and> parseInt JUndefined = NaN
   \<and> parseInt (JString []) = NaN
   \<and> parseInt (JString ''soon'') = NaN"
proof -
  have A: "parseInt (estTime t) = NaN \<longrightarrow>
      estContribution t = Num 0
      \<and> totalMins (overloadStats (xs @ t # ys)) = totalMins (overloadStats (xs @ ys))
      \<and> totalTasks (overloadStats (xs @ t # ys)) = Suc (totalTasks (overloadStats (xs @ ys)))
      \<and> (isOverloaded (overloadStats (xs @ t # ys)) \<longleftrightarrow>
           jsGreater (totalMins (overloadStats (xs @ ys))) (Num 480) \<or> 6 \<le> length (xs @ ys))"
  proof
    assume n: "parseInt (estTime t) = NaN"
    have s: "sumMins (xs @ t # ys) = sumMins (xs @ ys)"
      using n by (rule sumMins_skip)
    have l: "6 < length (xs @ t # ys) \<longleftrightarrow> 6 \<le> length (xs @ ys)"
      by auto
    show "estContribution t = Num 0
      \<and> totalMins (overloadStats (xs @ t # ys)) = totalMins (overloadStats (xs @ ys))
      \<and> totalTasks (overloadStats (xs @ t # ys)) = Suc (totalTasks (overloadStats (xs @ ys)))
      \<and> (isOverloaded (overloadStats (xs @ t # ys)) \<longleftrightarrow>
           jsGreater (totalMins (overloadStats (xs @ ys))) (Num 480) \<or> 6 \<le> length (xs @ ys))"
      unfolding overloadStats_def Let_def s l
      by (simp add: estContribution_of_NaN [OF n])
  qed
  have B: "(\<forall>t\<in>set vs. parseInt (estTime t) = NaN) \<longrightarrow>
        totalMins (overloadStats vs) = Num 0
        \<and> totalTasks (overloadStats vs) = length vs
        \<and> (isOverloaded (overloadStats vs) \<longleftrightarrow> 6 < length vs)"
  proof
    assume "\<forall>t\<in>set vs. parseInt (estTime t) = NaN"
    then have "sumMins vs = Num 0"
      by (rule sumMins_all_malformed)
    then show "totalMins (overloadStats vs) = Num 0
        \<and> totalTasks (overloadStats vs) = length vs
        \<and> (isOverloaded (overloadStats vs) \<longleftrightarrow> 6 < length vs)"
      by (simp add: overloadStats_def Let_def)
  qed
  from A B show ?thesis
    by (simp only: parseInt_malformed simp_thms)
qed

theorem overload_malformed_estimate_witness:
  "parseInt (estTime (sampleTask ''2'' ''2024-03-31'' JUndefined ''Done'')) = NaN
   \<and> totalMins (overloadStats [sampleTask ''1'' ''2024-03-31'' (JNumber (Num 30)) ''Done'',
                               sampleTask ''2'' ''2024-03-31'' JUndefined ''Done'']) = Num 30
   \<and> totalTasks (overloadStats [sampleTask ''1'' ''2024-03-31'' (JNumber (Num 30)) ''Done'',
                               sampleTask ''2'' ''2024-03-31'' JUndefined ''Done'']) = 2
   \<and> \<not> isOverloaded (overloadStats [sampleTask ''1'' ''2024-03-31'' (JNumber (Num 30)) ''Done'',
                               sampleTask ''2'' ''2024-03-31'' JUndefined ''Done''])
   \<and> totalMins (overloadStats
        (replicate 7 (sampleTask ''2'' ''2024-03-31'' JUndefined ''Done''))) = Num 0
   \<and> isOverloaded (overloadStats
        (replicate 7 (sampleTask ''2'' ''2024-03-31'' JUndefined ''Done'')))
   \<and> \<not> isOverloaded (overloadStats
        (replicate 6 (sampleTask ''3'' ''2024-03-31'' (JString ''soon'') ''Done'')))"
proof -
  let ?a = "sampleTask ''1'' ''2024-03-31'' (JNumber (Num 30)) ''Done''"
  let ?u = "sampleTask ''2'' ''2024-03-31'' JUndefined ''Done''"
  let ?s = "sampleTask ''3'' ''2024-03-31'' (JString ''soon'') ''Done''"
  have u: "parseInt (estTime ?u) = NaN"
    by (simp add: sampleTask_def parseInt_malformed)
  have s: "parseInt (estTime ?s) = NaN"
    by (simp add: sampleTask_def parseInt_malformed)
  have "estContribution ?a = Num 30"
    by (rule estContribution_of_number) (simp_all add: sampleTask_def)
  then have a: "overloadStats [?a] = \<lparr> totalMins = Num 30, totalTasks = 1, isOverloaded = False \<rparr>"
    by (simp add: overloadStats_def Let_def sumMins_def toDouble_exact)
  note t1 = overload_malformed_estimate [of ?u "[?a]" "[]" "replicate 7 ?u", THEN conjunct1]
  note t2 = overload_malformed_estimate [of ?u "[?a]" "[]" "replicate 7 ?u", THEN conjunct2,
      THEN conjunct1]
  note t3 = overload_malformed_estimate [of ?s "[]" "[]" "replicate 6 ?s", THEN conjunct2,
      THEN conjunct1]
  from mp [OF t1 u] a
  have r1: "totalMins (overloadStats [?a, ?u]) = Num 30"
    and r2: "totalTasks (overloadStats [?a, ?u]) = 2"
    and r3: "\<not> isOverloaded (overloadStats [?a, ?u])"
    by simp_all
  have "\<forall>t\<in>set (replicate 7 ?u). parseInt (estTime t) = NaN"
    using u by simp
  from mp [OF t2 this]
  have r4: "totalMins (overloadStats (replicate 7 ?u)) = Num 0"
    and r5: "isOverloaded (overloadStats (replicate 7 ?u))"
    by simp_all
  have "\<forall>t\<in>set (replicate 6 ?s). parseInt (estTime t) = NaN"
    using s by simp
  from mp [OF t3 this]
  have r6: "\<not> isOverloaded (overloadStats (replicate 6 ?s))"
    by simp
  show ?thesis
    by (intro conjI u r1 r2 r3 r4 r5 r6)
qed

section \<open>Saving a reflection\<close>

lemma sampleTask_fields:
  "id' (sampleTask i d e st) = i" "date (sampleTask i d e st) = d"
  "estTime (sampleTask i d e st) = e" "status (sampleTask i d e st) = st"
  "category (sampleTask i d e st) = ''Work''" "subCategory (sampleTask i d e st) = ''General''"
  by (simp_all add: sampleTask_def)

lemma sampleState_fields:
  "tasks (sampleState ts rs d sub) = ts" "reflections (sampleState ts rs d sub) = rs"
  "selectedDate (sampleState ts rs d sub) = d" "selectedMainCat (sampleState ts rs d sub) = ''Work''"
  "categories (sampleState ts rs d sub) = defaultCategories"
  "form_subCategory (taskForm (sampleState ts rs d sub)) = sub"
  by (simp_all add: sampleState_def)

lemma sampleReflection_fields:
  "date_r (sampleReflection i d m) = d" "mood (sampleReflection i d m) = Num m"
  by (simp_all add: sampleReflection_def)

lemma saveReflection_reflections:
  "reflections (fst (saveReflection tza now today fd s)) = savedReflections now fd s"
  by (simp add: saveReflection_def Let_def split: sum.splits)

lemma saveReflection_tasks:
  "tasks (fst (saveReflection tza now today fd s)) = tasks s
   \<or> (\<exists>nextDayStr. tasks (fst (saveReflection tza now today fd s))
          = updatedTasks fd (selectedDate s) nextDayStr (tasks s))"
  by (auto simp: saveReflection_def Let_def split: sum.splits)

text \<open>
  Claim C3. After a reflection is saved for the selected date, the list holds exactly
  one reflection of that date, the new one, at its end; the reflections of other dates
  are as before. So a list with at most one reflection per date stays such a list. This
  holds also where the handler stops with an exception afterwards.
\<close>

theorem reflection_replace:
  "length (filter (\<lambda>r. date_r r = selectedDate s)
       (reflections (fst (saveReflection tza now today fd s)))) = 1
   \<and> last (reflections (fst (saveReflection tza now today fd s))) = newRef now fd s
   \<and> filter (\<lambda>r. date_r r \<noteq> selectedDate s) (reflections (fst (saveReflection tza now today fd s)))
       = filter (\<lambda>r. date_r r \<noteq> selectedDate s) (reflections s)
   \<and> ((\<forall>d. length (filter (\<lambda>r. date_r r = d) (reflections s)) \<le> 1) \<longrightarrow>
       (\<forall>d. length (filter (\<lambda>r. date_r r = d)
               (reflections (fst (saveReflection tza now today fd s)))) \<le> 1))"
proof -
  let ?D = "selectedDate s"
  let ?old = "filter (\<lambda>r. date_r r \<noteq> ?D) (reflections s)"
  have new: "date_r (newRef now fd s) = ?D"
    by (simp add: newRef_def)
  have gone: "filter (\<lambda>r. date_r r = ?D) ?old = []"
    by (simp add: filter_empty_conv)
  have one: "length (filter (\<lambda>r. date_r r = ?D) (savedReflections now fd s)) = 1"
    using new gone by (simp add: savedReflections_def)
  have rest: "filter (\<lambda>r. date_r r \<noteq> ?D) (savedReflections now fd s) = ?old"
    using new by (simp add: savedReflections_def)
  have inv: "length (filter (\<lambda>r. date_r r = d) (savedReflections now fd s)) \<le> 1"
    if h: "\<forall>d. length (filter (\<lambda>r. date_r r = d) (reflections s)) \<le> 1" for d
  proof (cases "d = ?D")
    case True
    with one show ?thesis by simp
  next
    case False
    then have "filter (\<lambda>r. date_r r = d) ?old = filter (\<lambda>r. date_r r = d) (reflections s)"
      by (auto intro: filter_cong)
    with False new h show ?thesis
      by (simp add: savedReflections_def)
  qed
  from one rest inv show ?thesis
    by (simp add: saveReflection_reflections) (simp add: savedReflections_def)
qed

theorem reflection_replace_witness:
  "(\<forall>d. length (filter (\<lambda>r. date_r r = d)
          [sampleReflection ''a'' ''2024-03-31'' 4, sampleReflection ''b'' ''2024-03-30'' 6]) \<le> 1)
   \<and> (\<forall>d. length (filter (\<lambda>r. date_r r = d)
          (reflections (fst (saveReflection (fixedZone 0) 1711900000000 ''2024-03-31'' sampleForm
             (sampleState [] [sampleReflection ''a'' ''2024-03-31'' 4,
                              sampleReflection ''b'' ''2024-03-30'' 6] ''2024-03-31'' []))))) \<le> 1)
   \<and> length (filter (\<lambda>r. date_r r = ''2024-03-31'')
          (reflections (fst (saveReflection (fixedZone 0) 1711900000000 ''2024-03-31'' sampleForm
             (sampleState [] [sampleReflection ''a'' ''2024-03-31'' 4,
                              sampleReflection ''b'' ''2024-03-30'' 6] ''2024-03-31'' []))))) = 1"
proof -
  let ?rs = "[sampleReflection ''a'' ''2024-03-31'' 4, sampleReflection ''b'' ''2024-03-30'' 6]"
  let ?S = "sampleState [] ?rs ''2024-03-31'' []"
  have h: "\<forall>d. length (filter (\<lambda>r. date_r r = d) ?rs) \<le> 1"
    by (simp add: sampleReflection_fields)
  have sel: "selectedDate ?S = ''2024-03-31''" and rs: "reflections ?S = ?rs"
    by (simp_all add: sampleState_fields)
  from h sel rs reflection_replace [of ?S "fixedZone 0" 1711900000000 "''2024-03-31''" sampleForm]
  show ?thesis
    by simp
qed

text \<open>
  Claim C9. The rollover leaves every task that is not of the selected date, or is done,
  or whose checkbox did not come back checked, as it was, at its place in the list.
\<close>

theorem rollover_frame:
  "length (tasks (fst (saveReflection tza now today fd s))) = length (tasks s)
   \<and> (\<forall>i<length (tasks s).
        \<not> (date (tasks s ! i) = selectedDate s \<and> status (tasks s ! i) \<noteq> ''Done''
           \<and> fd (''recycle_'' @ id' (tasks s ! i)) = Some ''on'')
        \<longrightarrow> tasks (fst (saveReflection tza now today fd s)) ! i = tasks s ! i)"
  using saveReflection_tasks [of tza now today fd s]
  by (auto simp: updatedTasks_def shouldRecycle_def)

theorem rollover_frame_witness:
  "length (tasks (fst (saveReflection (fixedZone 0) 1711900000000 ''2024-03-31'' sampleForm
       (sampleState [sampleTask ''1'' ''2024-03-31'' (JNumber (Num 30)) ''Not Started'',
                     sampleTask ''2'' ''2024-03-31'' (JNumber (Num 20)) ''Done'',
                     sampleTask ''3'' ''2024-03-30'' (JNumber (Num 10)) ''Not Started'']
                    [] ''2024-03-31'' [])))) = 3
   \<and> tasks (fst (saveReflection (fixedZone 0) 1711900000000 ''2024-03-31'' sampleForm
       (sampleState [sampleTask ''1'' ''2024-03-31'' (JNumber (Num 30)) ''Not Started'',
                     sampleTask ''2'' ''2024-03-31'' (JNumber (Num 20)) ''Done'',
                     sampleTask ''3'' ''2024-03-30'' (JNumber (Num 10)) ''Not Started'']
                    [] ''2024-03-31'' []))) ! 1
     = sampleTask ''2'' ''2024-03-31'' (JNumber (Num 20)) ''Done''
   \<and> tasks (fst (saveReflection (fixedZone 0) 1711900000000 ''2024-03-31'' sampleForm
       (sampleState [sampleTask ''1'' ''2024-03-31'' (JNumber (Num 30)) ''Not Started'',
                     sampleTask ''2'' ''2024-03-31'' (JNumber (Num 20)) ''Done'',
                     sampleTask ''3'' ''2024-03-30'' (JNumber (Num 10)) ''Not Started'']
                    [] ''2024-03-31'' []))) ! 2
     = sampleTask ''3'' ''2024-03-30'' (JNumber (Num 10)) ''Not Started''"
proof -
  let ?ts = "[sampleTask ''1'' ''2024-03-31'' (JNumber (Num 30)) ''Not Started'',
              sampleTask ''2'' ''2024-03-31'' (JNumber (Num 20)) ''Done'',
              sampleTask ''3'' ''2024-03-30'' (JNumber (Num 10)) ''Not Started'']"
  let ?S = "sampleState ?ts [] ''2024-03-31'' []"
  let ?S' = "fst (saveReflection (fixedZone 0) 1711900000000 ''2024-03-31'' sampleForm ?S)"
  note f = rollover_frame [of "fixedZone 0" 1711900000000 "''2024-03-31''" sampleForm ?S]
  have ts: "tasks ?S = ?ts" and sel: "selectedDate ?S = ''2024-03-31''"
    by (simp_all add: sampleState_fields)
  from f have len: "length (tasks ?S') = length (tasks ?S)"
    by (rule conjunct1)
  from f have fr: "\<And>i. i < length (tasks ?S) \<Longrightarrow>
        \<not> (date (tasks ?S ! i) = selectedDate ?S \<and> status (tasks ?S ! i) \<noteq> ''Done''
           \<and> sampleForm (''recycle_'' @ id' (tasks ?S ! i)) = Some ''on'')
        \<Longrightarrow> tasks ?S' ! i = tasks ?S ! i"
    by blast
  have one: "tasks ?S' ! 1 = tasks ?S ! 1"
    by (rule fr) (simp_all add: sampleState_fields sampleTask_fields)
  have two: "tasks ?S' ! 2 = tasks ?S ! 2"
    by (rule fr) (simp_all add: sampleState_fields sampleTask_fields)
  from len one two show ?thesis
    by (simp add: sampleState_fields)
qed

section \<open>Adding a task\<close>

lemma set_update_subset: "set (AList.update k v al) \<subseteq> insert (k, v) (set al)"
  by (induction al) auto

lemma newTask_fields:
  "category (newTask now s) = selectedMainCat s" "subCategory (newTask now s) = chosenSubCat s"
  "date (newTask now s) = selectedDate s" "status (newTask now s) = ''Not Started''"
  by (simp_all add: newTask_def)

lemma handleAddTask_fields:
  "categories (handleAddTask now s) = grownCategories s"
  "last (tasks (handleAddTask now s)) = newTask now s"
  "selectedMainCat (handleAddTask now s) = selectedMainCat s"
  "chosenSubCat (handleAddTask now s) = chosenSubCat s"
  by (simp_all add: handleAddTask_def chosenSubCat_def)

lemma grown_again: "grownCategories (handleAddTask now s) = grownCategories s"
proof (cases "map_of (categories s) (selectedMainCat s)")
  case None
  then show ?thesis
    by (simp add: grownCategories_def handleAddTask_fields Let_def)
next
  case (Some subs)
  show ?thesis
  proof (cases "chosenSubCat s \<in> set subs")
    case True
    with Some show ?thesis
      by (simp add: grownCategories_def handleAddTask_fields Let_def)
  next
    case False
    with Some have g: "grownCategories s
        = AList.update (selectedMainCat s) (subs @ [chosenSubCat s]) (categories s)"
      by (simp add: grownCategories_def Let_def)
    then have "map_of (grownCategories s) (selectedMainCat s) = Some (subs @ [chosenSubCat s])"
      by (simp add: update_conv')
    then show ?thesis
      by (simp add: grownCategories_def [of "handleAddTask now s"] handleAddTask_fields Let_def)
  qed
qed

text \<open>
  Claim C5. Where the main category of the new task has a list, a sub-category not in
  it is appended once, at the end, and a sub-category already there changes nothing;
  the lists of the other categories are untouched. Adding a further task with the same
  main category and sub-category leaves the categories as they are. Lists without
  duplicates stay without duplicates.
\<close>

theorem category_growth:
  "(map_of (categories s) (selectedMainCat s) = Some subs \<longrightarrow>
      category (last (tasks (handleAddTask now s))) = selectedMainCat s
      \<and> (subCategory (last (tasks (handleAddTask now s))) \<notin> set subs \<longrightarrow>
           map_of (categories (handleAddTask now s)) (selectedMainCat s)
             = Some (subs @ [subCategory (last (tasks (handleAddTask now s)))])
           \<and> count_list (subs @ [subCategory (last (tasks (handleAddTask now s)))])
                (subCategory (last (tasks (handleAddTask now s)))) = 1)
      \<and> (subCategory (last (tasks (handleAddTask now s))) \<in> set subs \<longrightarrow>
           categories (handleAddTask now s) = categories s))
   \<and> (\<forall>k. k \<noteq> selectedMainCat s \<longrightarrow>
         map_of (categories (handleAddTask now s)) k = map_of (categories s) k)
   \<and> category (last (tasks (handleAddTask now' (handleAddTask now s))))
       = category (last (tasks (handleAddTask now s)))
   \<and> subCategory (last (tasks (handleAddTask now' (handleAddTask now s))))
       = subCategory (last (tasks (handleAddTask now s)))
   \<and> categories (handleAddTask now' (handleAddTask now s)) = categories (handleAddTask now s)
   \<and> ((\<forall>kl\<in>set (categories s). distinct (snd kl)) \<longrightarrow>
       (\<forall>kl\<in>set (categories (handleAddTask now s)). distinct (snd kl)))"
proof -
  let ?m = "selectedMainCat s" and ?c = "chosenSubCat s"
  have fresh: "map_of (grownCategories s) ?m = Some (subs @ [?c]) \<and> count_list (subs @ [?c]) ?c = 1"
    if "map_of (categories s) ?m = Some subs" "?c \<notin> set subs"
    using that by (simp add: grownCategories_def Let_def update_conv' count_list_0_iff)
  have known: "grownCategories s = categories s"
    if "map_of (categories s) ?m = Some subs" "?c \<in> set subs"
    using that by (simp add: grownCategories_def Let_def)
  have others: "map_of (grownCategories s) k = map_of (categories s) k" if "k \<noteq> ?m" for k
    using that by (simp add: grownCategories_def Let_def update_conv' split: option.splits)
  have inv: "\<forall>kl\<in>set (grownCategories s). distinct (snd kl)"
    if h: "\<forall>kl\<in>set (categories s). distinct (snd kl)"
  proof (cases "map_of (categories s) ?m")
    case None
    with h show ?thesis by (simp add: grownCategories_def Let_def)
  next
    case (Some l)
    then have "(?m, l) \<in> set (categories s)"
      by (rule map_of_SomeD)
    with h have "distinct l" by force
    with Some h set_update_subset [of ?m "l @ [?c]" "categories s"] show ?thesis
      by (auto simp: grownCategories_def Let_def)
  qed
  from fresh known others inv show ?thesis
    by (simp add: handleAddTask_fields newTask_fields grown_again)
qed

theorem category_growth_witness:
  "map_of (categories (sampleState [] [] ''2024-03-31'' ''Podcast''))
       (selectedMainCat (sampleState [] [] ''2024-03-31'' ''Podcast''))
     = Some [''Career Coaching'', ''Life Coaching'', ''Social Media'']
   \<and> map_of (categories (handleAddTask 1711900000000 (sampleState [] [] ''2024-03-31'' ''Podcast'')))
         ''Work''
     = Some [''Career Coaching'', ''Life Coaching'', ''Social Media'', ''Podcast'']
   \<and> map_of (categories (handleAddTask 1711900000000 (sampleState [] [] ''2024-03-31'' ''Podcast'')))
         ''Learning''
     = Some [''Reading'', ''Courses'']
   \<and> categories (handleAddTask 1711900060000
         (handleAddTask 1711900000000 (sampleState [] [] ''2024-03-31'' ''Podcast'')))
     = categories (handleAddTask 1711900000000 (sampleState [] [] ''2024-03-31'' ''Podcast''))
   \<and> list_all (\<lambda>kl. distinct (snd kl))
         (categories (handleAddTask 1711900000000 (sampleState [] [] ''2024-03-31'' ''Podcast'')))"
proof -
  let ?S = "sampleState [] [] ''2024-03-31'' ''Podcast''"
  let ?subs = "[''Career Coaching'', ''Life Coaching'', ''Social Media'']"
  note g = category_growth [of ?S ?subs 1711900000000 1711900060000]
  have m: "map_of (categories ?S) (selectedMainCat ?S) = Some ?subs"
    by (simp add: sampleState_fields defaultCategories_def)
  have c: "subCategory (last (tasks (handleAddTask 1711900000000 ?S))) = ''Podcast''"
    by (simp add: handleAddTask_fields newTask_fields chosenSubCat_def sampleState_fields)
  have d: "\<forall>kl\<in>set (categories ?S). distinct (snd kl)"
    by (simp add: sampleState_fields defaultCategories_def)
  have l: "map_of (categories ?S) ''Learning'' = Some [''Reading'', ''Courses'']"
    by (simp add: sampleState_fields defaultCategories_def)
  from g m c d l show ?thesis
    by (simp add: sampleState_fields list_all_iff)
qed

section \<open>Reminders\<close>

text \<open>
  Claim C4, as the code has it. The evening predicate holds exactly from 22:00 on, but
  the block it stands before is rendered at every time of day. The morning banner is
  rendered only on today's date and only inside the window 09:30 to 11:59, and it is
  rendered throughout 09:30 to 09:59 of today's date.
\<close>

theorem reminder_windows:
  "(isEveningReflectionTime h m \<longleftrightarrow> eveningReflectionWindow h m)
   \<and> eveningBannerVisible h m
   \<and> (morningBannerVisible h m sel today \<longrightarrow> sel = today \<and> morningReviewWindow h m)
   \<and> (sel = today \<and> h = 9 \<and> 30 \<le> m \<longrightarrow> morningBannerVisible h m sel today)"
  by (auto simp: isEveningReflectionTime_def eveningReflectionWindow_def eveningBannerVisible_def
      morningBannerVisible_def isMorningReviewTime_def morningReviewWindow_def)

theorem reminder_windows_witness:
  "morningBannerVisible 9 45 ''2024-03-31'' ''2024-03-31''
   \<and> morningReviewWindow 9 45
   \<and> eveningBannerVisible 9 45
   \<and> \<not> isEveningReflectionTime 9 45"
  using reminder_windows [of 9 45 "''2024-03-31''" "''2024-03-31''"]
  by (simp add: eveningReflectionWindow_def)

text \<open>
  Claim C4 as stated fails: at 15:00 the evening block is rendered outside its window;
  at 10:15 of today's date, inside the morning window, the morning banner is not
  rendered; at 09:45 with another date selected it is not rendered either.
\<close>

theorem reminder_windows_counterexample:
  "\<not> (eveningBannerVisible 15 0 \<longleftrightarrow> eveningReflectionWindow 15 0)
   \<and> \<not> (morningBannerVisible 10 15 ''2024-03-31'' ''2024-03-31'' \<longleftrightarrow> morningReviewWindow 10 15)
   \<and> \<not> (morningBannerVisible 9 45 ''2024-03-30'' ''2024-03-31'' \<longleftrightarrow> morningReviewWindow 9 45)"
  by (simp add: eveningBannerVisible_def eveningReflectionWindow_def morningBannerVisible_def
      isMorningReviewTime_def morningReviewWindow_def)

section \<open>Dashboard\<close>

subsection \<open>Mood trend\<close>














subsection \<open>Rounding of quotients\<close>















subsection \<open>Weekly time by category\<close>


























section \<open>The calendar\<close>

text \<open>Integer division by a positive number, pinned between two multiples.\<close>

lemma div_between:
  fixes a b q :: int
  assumes "b * q \<le> a" "a < b * q + b"
  shows "a div b = q"
  using assms by (intro int_div_pos_eq [of a b q "a - b * q"]) simp_all

lemma mod_between:
  fixes a b q :: int
  assumes "b * q \<le> a" "a < b * q + b"
  shows "a mod b = a - b * q"
  using assms by (intro int_mod_pos_eq [of a b q "a - b * q"]) simp_all

text \<open>Day numbers and calendar dates: a valid date is recovered from its day number.
  The year of the era is split into centuries, four-year groups and a rest.\<close>

lemma month_cases:
  fixes mp :: int
  assumes "0 \<le> mp" "mp \<le> 11"
  shows "mp = 0 \<or> mp = 1 \<or> mp = 2 \<or> mp = 3 \<or> mp = 4 \<or> mp = 5
         \<or> mp = 6 \<or> mp = 7 \<or> mp = 8 \<or> mp = 9 \<or> mp = 10 \<or> mp = 11"
  using assms by arith

lemma month_part:
  fixes mp d :: int
  assumes "0 \<le> mp" "mp \<le> 11" "1 \<le> d" "d \<le> 31"
    "mp = 1 \<or> mp = 3 \<or> mp = 6 \<or> mp = 8 \<Longrightarrow> d \<le> 30" "mp = 11 \<Longrightarrow> d \<le> 29"
  shows "(5 * ((153 * mp + 2) div 5 + d - 1) + 2) div 153 = mp"
  using month_cases [OF assms(1,2)] assms(3-)
  by (elim disjE; simp; presburger)

lemma year_part:
  fixes c j r doy :: int
  assumes c: "0 \<le> c" "c \<le> 3" and j: "0 \<le> j" "j \<le> 24" and r: "0 \<le> r" "r \<le> 3"
    and doy: "0 \<le> doy" "doy \<le> 365" and leap: "doy = 365 \<Longrightarrow> r = 3 \<and> (j \<noteq> 24 \<or> c = 3)"
  defines "doe \<equiv> 36524 * c + 1461 * j + 365 * r + doy"
  shows "(doe - doe div 1460 + doe div 36524 - doe div 146096) div 365 = 100 * c + 4 * j + r"
proof -
  have centuries: "doe div 36524 - doe div 146096 = c"
  proof (cases "doe = 146096")
    case True
    with c j r doy have "c = 3"
      unfolding doe_def by linarith
    with True show ?thesis by simp
  next
    case False
    have top: "1461 * j + 365 * r + doy < 36524"
    proof (rule ccontr)
      assume "\<not> 1461 * j + 365 * r + doy < 36524"
      with j r doy have "j = 24" "r = 3" "doy = 365"
        by linarith+
      with leap have "c = 3" by simp
      with \<open>j = 24\<close> \<open>r = 3\<close> \<open>doy = 365\<close> False show False
        unfolding doe_def by simp
    qed
    have "36524 * c \<le> doe" "doe < 36524 * c + 36524"
      using top j r doy unfolding doe_def by linarith+
    then have "doe div 36524 = c"
      by (rule div_between)
    moreover have "146096 * 0 \<le> doe" "doe < 146096 * 0 + 146096"
      using top c j r doy unfolding doe_def by linarith+
    then have "doe div 146096 = 0"
      by (rule div_between)
    ultimately show ?thesis by simp
  qed
  let ?rest = "24 * c + j + 365 * r + doy"
  let ?q = "100 * c + 4 * j + r"
  have split: "doe = 1460 * (25 * c + j) + ?rest"
    unfolding doe_def by simp
  have regroup: "doe - doe div 1460 + doe div 36524 - doe div 146096
      = doe - doe div 1460 + (doe div 36524 - doe div 146096)"
    by simp
  show ?thesis
  proof (cases "?rest < 1460")
    case True
    have "1460 * (25 * c + j) \<le> doe" "doe < 1460 * (25 * c + j) + 1460"
      using True c j r doy unfolding split by linarith+
    then have a: "doe div 1460 = 25 * c + j"
      by (rule div_between)
    have "doy \<le> 364"
    proof (rule ccontr)
      assume "\<not> doy \<le> 364"
      with doy have "doy = 365" by linarith
      with leap have "r = 3" by simp
      with \<open>doy = 365\<close> True c j show False by linarith
    qed
    moreover have "doe - doe div 1460 + doe div 36524 - doe div 146096 = 365 * ?q + doy"
    proof -
      note regroup
      also have "doe - doe div 1460 + (doe div 36524 - doe div 146096) = doe - (25 * c + j) + c"
        by (simp only: a centuries)
      also have "\<dots> = 365 * ?q + doy"
        by (simp add: doe_def)
      finally show ?thesis .
    qed
    ultimately show ?thesis
      using doy by (intro div_between) linarith+
  next
    case False
    have lo: "1460 \<le> ?rest"
      using False by simp
    have hi: "?rest \<le> 1556"
      using c j r doy by linarith
    have "1460 * (25 * c + j + 1) \<le> doe"
      unfolding split using lo by simp
    moreover have "doe < 1460 * (25 * c + j + 1) + 1460"
      unfolding split using hi by simp
    ultimately have a: "doe div 1460 = 25 * c + j + 1"
      by (rule div_between)
    have "1 \<le> doy"
      using lo c j r by linarith
    moreover have "doe - doe div 1460 + doe div 36524 - doe div 146096 = 365 * ?q + (doy - 1)"
    proof -
      note regroup
      also have "doe - doe div 1460 + (doe div 36524 - doe div 146096) = doe - (25 * c + j + 1) + c"
        by (simp only: a centuries)
      also have "\<dots> = 365 * ?q + (doy - 1)"
        by (simp add: doe_def)
      finally show ?thesis .
    qed
    ultimately show ?thesis
      using doy by (intro div_between) linarith+
  qed
qed

lemma civilFromDays_steps:
  assumes z: "z + 719468 = era * 146097 + doe" and doe: "0 \<le> doe" "doe < 146097"
    and yoe: "(doe - doe div 1460 + doe div 36524 - doe div 146096) div 365 = yoe"
    and doy: "doe - (365 * yoe + yoe div 4 - yoe div 100) = doy"
    and mp: "(5 * doy + 2) div 153 = mp"
    and d: "doy - (153 * mp + 2) div 5 + 1 = d"
  shows "civilFromDays z =
     (if (if mp < 10 then mp + 3 else mp - 9) \<le> 2 then yoe + era * 400 + 1 else yoe + era * 400,
      if mp < 10 then mp + 3 else mp - 9, d)"
proof -
  have "146097 * era \<le> era * 146097 + doe" "era * 146097 + doe < 146097 * era + 146097"
    using doe by simp_all
  then have e: "(era * 146097 + doe) div 146097 = era"
    and m: "(era * 146097 + doe) mod 146097 = doe"
    by (simp_all only: div_between mod_between)
  show ?thesis
    unfolding civilFromDays_def Let_def z e m yoe doy mp d ..
qed

lemma year_of_era:
  fixes yoe :: int
  assumes "0 \<le> yoe" "yoe < 400"
  obtains c j r where "yoe = 100 * c + 4 * j + r" "0 \<le> c" "c \<le> 3" "0 \<le> j" "j \<le> 24"
    "0 \<le> r" "r \<le> 3" "yoe div 4 = 25 * c + j" "yoe div 100 = c"
proof -
  define c where "c = yoe div 100"
  define k where "k = yoe mod 100"
  define j where "j = k div 4"
  define r where "r = k mod 4"
  have e1: "100 * c + k = yoe"
    unfolding c_def k_def by (rule mult_div_mod_eq)
  have e2: "4 * j + r = k"
    unfolding j_def r_def by (rule mult_div_mod_eq)
  have kr: "0 \<le> k" "k < 100"
    unfolding k_def by simp_all
  have rr: "0 \<le> r" "r < 4"
    unfolding r_def by simp_all
  have dec: "yoe = 100 * c + 4 * j + r"
    using e1 e2 by simp
  have ranges: "0 \<le> c" "c \<le> 3" "0 \<le> j" "j \<le> 24" "r \<le> 3"
    using assms e1 e2 kr rr by - linarith+
  have "4 * (25 * c + j) \<le> yoe" "yoe < 4 * (25 * c + j) + 4"
    using dec rr by simp_all
  then have q4: "yoe div 4 = 25 * c + j"
    by (rule div_between)
  have q100: "yoe div 100 = c"
    by (simp only: c_def)
  show ?thesis
    by (rule that [OF dec ranges(1-4) rr(1) ranges(5) q4 q100])
qed

lemma leap_year_of_era:
  fixes era c j r :: int
  assumes r: "0 \<le> r" "r \<le> 3" and j: "0 \<le> j" "j \<le> 24" and c: "0 \<le> c" "c \<le> 3"
    and leap: "isLeapYear (era * 400 + (100 * c + 4 * j + r) + 1)"
  shows "r = 3 \<and> (j \<noteq> 24 \<or> c = 3)"
proof -
  let ?y = "era * 400 + (100 * c + 4 * j + r) + 1"
  have four: "?y mod 4 = 0" and cent: "?y mod 100 \<noteq> 0 \<or> ?y mod 400 = 0"
    using leap unfolding isLeapYear_def by simp_all
  have r3: "r = 3"
  proof (rule ccontr)
    assume "r \<noteq> 3"
    with r have "4 * (100 * era + 25 * c + j) \<le> ?y" "?y < 4 * (100 * era + 25 * c + j) + 4"
      by simp_all
    then have "?y mod 4 = ?y - 4 * (100 * era + 25 * c + j)"
      by (rule mod_between)
    with four have "r + 1 = 0"
      by simp
    with r show False by linarith
  qed
  have "c = 3" if "j = 24"
  proof (rule ccontr)
    assume "c \<noteq> 3"
    have y: "?y = 100 * (4 * era + c + 1)"
      using r3 that by simp
    have "100 * (4 * era + c + 1) mod 100 = 0"
      by (rule mod_mult_self1_is_0)
    with cent have z: "?y mod 400 = 0"
      unfolding y by blast
    from \<open>c \<noteq> 3\<close> c have "400 * era \<le> 100 * (4 * era + c + 1)"
      "100 * (4 * era + c + 1) < 400 * era + 400"
      by simp_all
    with y have "400 * era \<le> ?y" "?y < 400 * era + 400"
      by simp_all
    then have "?y mod 400 = ?y - 400 * era"
      by (rule mod_between)
    with z have "?y - 400 * era = 0"
      by simp
    with y have "100 * (c + 1) = 0"
      by simp
    with c show False by simp
  qed
  with r3 show ?thesis by blast
qed

lemma day_of_year:
  fixes mp d :: int
  assumes "0 \<le> mp" "mp \<le> 11" "1 \<le> d" "d \<le> 31" "mp = 11 \<Longrightarrow> d \<le> 29"
  shows "0 \<le> (153 * mp + 2) div 5 + d - 1 \<and> (153 * mp + 2) div 5 + d - 1 \<le> 365
         \<and> ((153 * mp + 2) div 5 + d - 1 = 365 \<longrightarrow> mp = 11 \<and> d = 29)"
  using month_cases [OF assms(1,2)] assms(3-)
  by (elim disjE; simp)

lemma civil_roundtrip:
  assumes m: "1 \<le> m" "m \<le> 12" and d: "1 \<le> d" "d \<le> daysInMonth y m"
  shows "civilFromDays (daysFromCivil y m d) = (y, m, d)"
proof -
  define y' where "y' = (if m \<le> 2 then y - 1 else y)"
  define era where "era = y' div 400"
  define yoe where "yoe = y' mod 400"
  define mp where "mp = (if 2 < m then m - 3 else m + 9)"
  define doy where "doy = (153 * mp + 2) div 5 + d - 1"
  define doe where "doe = yoe * 365 + yoe div 4 - yoe div 100 + doy"
  have days: "daysFromCivil y m d = era * 146097 + doe - 719468"
    unfolding daysFromCivil_def Let_def doe_def doy_def mp_def yoe_def era_def y'_def ..
  have y'_eq: "y' = era * 400 + yoe"
    unfolding era_def yoe_def by simp
  have "0 \<le> yoe" "yoe < 400"
    unfolding yoe_def by simp_all
  then obtain c j r where dec: "yoe = 100 * c + 4 * j + r" "0 \<le> c" "c \<le> 3" "0 \<le> j" "j \<le> 24"
    "0 \<le> r" "r \<le> 3" and q4: "yoe div 4 = 25 * c + j" and q100: "yoe div 100 = c"
    by (rule year_of_era)
  have mp_range: "0 \<le> mp" "mp \<le> 11"
    using m unfolding mp_def by - (simp_all split: if_splits)
  have d31: "d \<le> 31"
    using d(2) unfolding daysInMonth_def by (simp split: if_splits)
  have d30: "d \<le> 30" if "mp = 1 \<or> mp = 3 \<or> mp = 6 \<or> mp = 8"
    using that m d(2) unfolding mp_def daysInMonth_def by (auto split: if_splits)
  have d29: "d \<le> 29" if "mp = 11"
    using that m d(2) unfolding mp_def daysInMonth_def by (auto split: if_splits)
  have mp_back: "(5 * doy + 2) div 153 = mp"
    unfolding doy_def using mp_range d(1) d31 d30 d29 by (rule month_part)
  have m_back: "(if mp < 10 then mp + 3 else mp - 9) = m"
    using m unfolding mp_def by auto
  have d_back: "doy - (153 * mp + 2) div 5 + 1 = d"
    unfolding doy_def by simp
  note doy_facts = day_of_year [OF mp_range d(1) d31 d29, folded doy_def]
  have doy_range: "0 \<le> doy" "doy \<le> 365"
    using doy_facts by simp_all
  have leap: "r = 3 \<and> (j \<noteq> 24 \<or> c = 3)" if "doy = 365"
  proof -
    from that doy_facts have "mp = 11" "d = 29"
      by simp_all
    then have "m = 2"
      using m unfolding mp_def by (auto split: if_splits)
    with d(2) \<open>d = 29\<close> have "isLeapYear y"
      by (simp add: daysInMonth_def split: if_splits)
    moreover from \<open>m = 2\<close> have "y = era * 400 + (100 * c + 4 * j + r) + 1"
      using y'_eq dec(1) unfolding y'_def by simp
    ultimately have "isLeapYear (era * 400 + (100 * c + 4 * j + r) + 1)"
      by simp
    with dec(6,7,4,5,2,3) show ?thesis
      by (rule leap_year_of_era)
  qed
  have doe_eq: "doe = 36524 * c + 1461 * j + 365 * r + doy"
    unfolding doe_def q4 q100 unfolding dec(1) by simp
  have "(36524 * c + 1461 * j + 365 * r + doy
          - (36524 * c + 1461 * j + 365 * r + doy) div 1460
          + (36524 * c + 1461 * j + 365 * r + doy) div 36524
          - (36524 * c + 1461 * j + 365 * r + doy) div 146096) div 365
        = 100 * c + 4 * j + r"
    using dec(2-) doy_range leap by (rule year_part)
  then have yoe_back: "(doe - doe div 1460 + doe div 36524 - doe div 146096) div 365 = yoe"
    unfolding doe_eq [symmetric] dec(1) [symmetric] .
  have doy_back: "doe - (365 * yoe + yoe div 4 - yoe div 100) = doy"
    unfolding doe_def by simp
  have doe_range: "0 \<le> doe" "doe < 146097"
    using dec(2-) doy_range unfolding doe_eq by - linarith+
  have "daysFromCivil y m d + 719468 = era * 146097 + doe"
    unfolding days by simp
  from civilFromDays_steps [OF this doe_range yoe_back doy_back mp_back d_back]
  have "civilFromDays (daysFromCivil y m d)
      = (if m \<le> 2 then yoe + era * 400 + 1 else yoe + era * 400, m, d)"
    unfolding m_back .
  moreover have "(if m \<le> 2 then yoe + era * 400 + 1 else yoe + era * 400) = y"
    using y'_eq unfolding y'_def by (simp split: if_splits)
  ultimately show ?thesis
    by simp
qed

text \<open>The day number of the day after is one more; the step from February into March
  carries the leap year rule.\<close>

lemma div_step:
  fixes y k :: int
  assumes "0 < k"
  shows "y div k - (y - 1) div k = (if y mod k = 0 then 1 else 0)"
proof -
  define q where "q = y div k"
  define t where "t = y mod k"
  have y: "y = k * q + t"
    unfolding q_def t_def by simp
  have t: "0 \<le> t" "t < k"
    using assms unfolding t_def by simp_all
  show ?thesis
  proof (cases "t = 0")
    case True
    have "k * (q - 1) \<le> y - 1" "y - 1 < k * (q - 1) + k"
      using True assms unfolding y by (simp_all add: algebra_simps)
    then have "(y - 1) div k = q - 1"
      by (rule div_between)
    with True show ?thesis
      unfolding q_def [symmetric] t_def [symmetric] by simp
  next
    case False
    have "k * q \<le> y - 1" "y - 1 < k * q + k"
      using False t unfolding y by simp_all
    then have "(y - 1) div k = q"
      by (rule div_between)
    with False show ?thesis
      unfolding q_def [symmetric] t_def [symmetric] by simp
  qed
qed

lemma year_days_closed:
  fixes n :: int
  shows "(n div 400) * 146097 + (n mod 400) * 365 + (n mod 400) div 4 - (n mod 400) div 100
         = 365 * n + n div 4 - n div 100 + n div 400"
proof -
  define e where "e = n div 400"
  define yoe where "yoe = n mod 400"
  have n: "n = 400 * e + yoe"
    unfolding e_def yoe_def by simp
  have "0 \<le> yoe" "yoe < 400"
    unfolding yoe_def by simp_all
  then obtain c j r where dec: "yoe = 100 * c + 4 * j + r" "0 \<le> c" "c \<le> 3" "0 \<le> j" "j \<le> 24"
    "0 \<le> r" "r \<le> 3" and q4: "yoe div 4 = 25 * c + j" and q100: "yoe div 100 = c"
    by (rule year_of_era)
  have "4 * (100 * e + 25 * c + j) \<le> n" "n < 4 * (100 * e + 25 * c + j) + 4"
    using dec unfolding n by simp_all
  then have n4: "n div 4 = 100 * e + 25 * c + j"
    by (rule div_between)
  have "100 * (4 * e + c) \<le> n" "n < 100 * (4 * e + c) + 100"
    using dec unfolding n by simp_all
  then have n100: "n div 100 = 4 * e + c"
    by (rule div_between)
  show ?thesis
    unfolding e_def [symmetric] yoe_def [symmetric] q4 q100 n4 n100
    unfolding n dec(1) by simp
qed

lemma leap_arith:
  fixes y a4 a100 a400 :: int
  assumes "b100 \<Longrightarrow> b4" "b400 \<Longrightarrow> b100"
  shows "365 * y + (a4 + (if b4 then 1 else 0)) - (a100 + (if b100 then 1 else 0))
           + (a400 + (if b400 then 1 else 0))
         = 365 * (y - 1) + a4 - a100 + a400 + (if b4 \<and> (\<not> b100 \<or> b400) then 366 else 365)"
  using assms by (cases b4; cases b100; cases b400; simp)

lemma year_step:
  fixes y :: int
  shows "(y div 400) * 146097 + (y mod 400) * 365 + (y mod 400) div 4 - (y mod 400) div 100
         = ((y - 1) div 400) * 146097 + ((y - 1) mod 400) * 365 + ((y - 1) mod 400) div 4
           - ((y - 1) mod 400) div 100 + (if isLeapYear y then 366 else 365)"
proof -
  have m100: "y mod 4 = 0" if "y mod 100 = 0"
    using that by presburger
  have m400: "y mod 100 = 0" if "y mod 400 = 0"
    using that by presburger
  have s4: "y div 4 = (y - 1) div 4 + (if y mod 4 = 0 then 1 else 0)"
    using div_step [of 4 y] by simp
  have s100: "y div 100 = (y - 1) div 100 + (if y mod 100 = 0 then 1 else 0)"
    using div_step [of 100 y] by simp
  have s400: "y div 400 = (y - 1) div 400 + (if y mod 400 = 0 then 1 else 0)"
    using div_step [of 400 y] by simp
  have "365 * y + ((y - 1) div 4 + (if y mod 4 = 0 then 1 else 0))
          - ((y - 1) div 100 + (if y mod 100 = 0 then 1 else 0))
          + ((y - 1) div 400 + (if y mod 400 = 0 then 1 else 0))
      = 365 * (y - 1) + (y - 1) div 4 - (y - 1) div 100 + (y - 1) div 400
        + (if y mod 4 = 0 \<and> (\<not> y mod 100 = 0 \<or> y mod 400 = 0) then 366 else 365)"
    using m100 m400 by (rule leap_arith)
  then have "365 * y + y div 4 - y div 100 + y div 400
      = 365 * (y - 1) + (y - 1) div 4 - (y - 1) div 100 + (y - 1) div 400
        + (if isLeapYear y then 366 else 365)"
    unfolding isLeapYear_def s4 [symmetric] s100 [symmetric] s400 [symmetric] .
  then show ?thesis
    unfolding year_days_closed [of y] year_days_closed [of "y - 1"] .
qed

lemma next_day_number:
  assumes m: "1 \<le> m" "m \<le> 12" and d: "1 \<le> d" "d \<le> daysInMonth y m"
  obtains y' m' d' where "nextCalendarDay (y, m, d) = (y', m', d')"
    "daysFromCivil y' m' d' = daysFromCivil y m d + 1"
    "1 \<le> m'" "m' \<le> 12" "1 \<le> d'" "d' \<le> daysInMonth y' m'"
proof -
  define yd where "yd = (\<lambda>n::int. (n div 400) * 146097 + (n mod 400) * 365
      + (n mod 400) div 4 - (n mod 400) div 100)"
  have alt: "daysFromCivil yy mm dd = yd (if mm \<le> 2 then yy - 1 else yy)
      + (153 * (if 2 < mm then mm - 3 else mm + 9) + 2) div 5 + dd - 1 - 719468" for yy mm dd
    unfolding daysFromCivil_def Let_def yd_def by simp
  have step: "yd y = yd (y - 1) + (if isLeapYear y then 366 else 365)"
    unfolding yd_def by (rule year_step)
  have month: "m = 1 \<or> m = 2 \<or> m = 3 \<or> m = 4 \<or> m = 5 \<or> m = 6 \<or> m = 7 \<or> m = 8 \<or> m = 9
      \<or> m = 10 \<or> m = 11 \<or> m = 12"
    using m by arith
  show ?thesis
  proof (cases "d < daysInMonth y m")
    case True
    then have n: "nextCalendarDay (y, m, d) = (y, m, d + 1)"
      by (simp add: nextCalendarDay_def)
    have e: "daysFromCivil y m (d + 1) = daysFromCivil y m d + 1"
      unfolding alt by simp
    have v: "1 \<le> d + 1" "d + 1 \<le> daysInMonth y m"
      using d True by simp_all
    show ?thesis
      by (rule that [OF n e m v])
  next
    case False
    with d have last: "d = daysInMonth y m"
      by simp
    show ?thesis
    proof (cases "m = 12")
      case True
      then have n: "nextCalendarDay (y, m, d) = (y + 1, 1, 1)"
        using last by (simp add: nextCalendarDay_def)
      have e: "daysFromCivil (y + 1) 1 1 = daysFromCivil y m d + 1"
        unfolding alt last True by (simp add: daysInMonth_def)
      have v: "(1::int) \<le> 1" "(1::int) \<le> 12" "1 \<le> daysInMonth (y + 1) 1"
        by (simp_all add: daysInMonth_def)
      show ?thesis
        by (rule that [OF n e v(1) v(2) v(1) v(3)])
    next
      case False
      then have n: "nextCalendarDay (y, m, d) = (y, m + 1, 1)"
        using last m by (simp add: nextCalendarDay_def)
      have e: "daysFromCivil y (m + 1) 1 = daysFromCivil y m d + 1"
        using month False unfolding alt last
        by (elim disjE; simp add: daysInMonth_def step)
      have v: "1 \<le> m + 1" "m + 1 \<le> 12" "(1::int) \<le> 1" "1 \<le> daysInMonth y (m + 1)"
        using m False by (simp_all add: daysInMonth_def)
      show ?thesis
        by (rule that [OF n e v])
    qed
  qed
qed

lemma civil_next_day:
  assumes "1 \<le> m" "m \<le> 12" "1 \<le> d" "d \<le> daysInMonth y m"
  shows "civilFromDays (daysFromCivil y m d + 1) = nextCalendarDay (y, m, d)"
proof -
  from assms obtain y' m' d' where n: "nextCalendarDay (y, m, d) = (y', m', d')"
    and e: "daysFromCivil y' m' d' = daysFromCivil y m d + 1"
    and v: "1 \<le> m'" "m' \<le> 12" "1 \<le> d'" "d' \<le> daysInMonth y' m'"
    by (rule next_day_number)
  from v have "civilFromDays (daysFromCivil y' m' d') = (y', m', d')"
    by (rule civil_roundtrip)
  with n e show ?thesis
    by simp
qed

text \<open>
  \<^verbatim>\<open>getNextDayStr\<close> in a zone of fixed offset, for every valid date: with an offset
  above -12 hours and up to +12 hours it is the calendar day after the date; with an
  offset above +12 hours (up to +36) it is the date itself.
\<close>

lemma parseIsoDate_valid:
  assumes "parseIsoDate s = Some (y, m, d)"
  shows "1 \<le> m" "m \<le> 12" "1 \<le> d" "d \<le> daysInMonth y m"
  using assms by (auto simp: parseIsoDate_def Let_def split: if_splits)

lemma makeDay_month:
  assumes "1 \<le> m" "m \<le> 12"
  shows "makeDay y (m - 1) dt = daysFromCivil y m 1 + dt - 1"
proof -
  from assms have "(m - 1) div 12 = 0" "(m - 1) mod 12 = m - 1"
    by simp_all
  then show ?thesis
    by (simp add: makeDay_def)
qed

lemma daysFromCivil_day: "daysFromCivil y m 1 + dt - 1 = daysFromCivil y m dt"
  by (simp add: daysFromCivil_def Let_def)

lemma noon_of_day:
  "(D * msPerDay + 12 * msPerHour) div msPerDay = D"
  "(D * msPerDay + 12 * msPerHour) mod msPerDay = 12 * msPerHour"
proof -
  have "86400000 * D \<le> D * 86400000 + 43200000" "D * 86400000 + 43200000 < 86400000 * D + 86400000"
    by simp_all
  then have "(D * 86400000 + 43200000) div 86400000 = D"
    "(D * 86400000 + 43200000) mod 86400000 = D * 86400000 + 43200000 - 86400000 * D"
    by (rule div_between, rule mod_between)
  then show "(D * msPerDay + 12 * msPerHour) div msPerDay = D"
    "(D * msPerDay + 12 * msPerHour) mod msPerDay = 12 * msPerHour"
    by (simp_all add: msPerDay_def msPerHour_def)
qed

lemma addLocalDays_noon:
  assumes v: "1 \<le> m" "m \<le> 12" "1 \<le> d" "d \<le> daysInMonth y m"
  shows "addLocalDays (fixedZone off) 1 (daysFromCivil y m d * msPerDay + 12 * msPerHour - off)
         = (daysFromCivil y m d + 1) * msPerDay + 12 * msPerHour - off"
proof -
  let ?D = "daysFromCivil y m d"
  have lt: "localTime (fixedZone off) (?D * msPerDay + 12 * msPerHour - off)
      = ?D * msPerDay + 12 * msPerHour"
    by (simp add: localTime_def fixedZone_def)
  have c: "civilFromDays ?D = (y, m, d)"
    using v by (rule civil_roundtrip)
  have md: "makeDay y (m - 1) (d + 1) = ?D + 1"
    using makeDay_month [OF v(1,2), of y "d + 1"] daysFromCivil_day [of y m "d + 1"]
      daysFromCivil_day [of y m d]
    by simp
  show ?thesis
    unfolding addLocalDays_def Let_def lt noon_of_day c
    by (simp add: md makeDate_def utc_def fixedZone_def)
qed

lemma getNextDayStr_fixed:
  assumes p: "parseIsoDate s = Some (y, m, d)"
  shows "getNextDayStr (fixedZone off) s
         = Inr (isoDateString ((daysFromCivil y m d + 1) * msPerDay + 12 * msPerHour - off))"
proof -
  note v = parseIsoDate_valid [OF p]
  have d0: "utc (fixedZone off) (makeDate (makeDay y (m - 1) d) (12 * msPerHour))
      = daysFromCivil y m d * msPerDay + 12 * msPerHour - off"
    using makeDay_month [OF v(1,2), of y d] daysFromCivil_day [of y m d]
    by (simp add: utc_def fixedZone_def makeDate_def)
  show ?thesis
    unfolding getNextDayStr_def p
    by (simp add: Let_def d0 addLocalDays_noon [OF v])
qed

lemma getNextDayStr_near:
  assumes p: "parseIsoDate s = Some (y, m, d)"
    and off: "- (12 * msPerHour) < off" "off \<le> 12 * msPerHour"
  shows "getNextDayStr (fixedZone off) s = Inr (formatDate (nextCalendarDay (y, m, d)))"
proof -
  let ?E = "daysFromCivil y m d + 1"
  have "86400000 * ?E \<le> ?E * 86400000 + 43200000 - off"
    "?E * 86400000 + 43200000 - off < 86400000 * ?E + 86400000"
    using off by (simp_all add: msPerHour_def)
  then have "(?E * 86400000 + 43200000 - off) div 86400000 = ?E"
    by (rule div_between)
  then have "(?E * msPerDay + 12 * msPerHour - off) div msPerDay = ?E"
    by (simp add: msPerDay_def msPerHour_def)
  then have "isoDateString (?E * msPerDay + 12 * msPerHour - off)
      = formatDate (civilFromDays ?E)"
    by (simp only: isoDateString_def)
  also have "civilFromDays ?E = nextCalendarDay (y, m, d)"
    using parseIsoDate_valid [OF p] by (rule civil_next_day)
  finally show ?thesis
    by (simp add: getNextDayStr_fixed [OF p])
qed

lemma getNextDayStr_far:
  assumes p: "parseIsoDate s = Some (y, m, d)"
    and off: "12 * msPerHour < off" "off \<le> 36 * msPerHour"
  shows "getNextDayStr (fixedZone off) s = Inr (formatDate (y, m, d))"
proof -
  let ?D = "daysFromCivil y m d"
  have "86400000 * ?D \<le> (?D + 1) * 86400000 + 43200000 - off"
    "(?D + 1) * 86400000 + 43200000 - off < 86400000 * ?D + 86400000"
    using off by (simp_all add: msPerHour_def)
  then have "((?D + 1) * 86400000 + 43200000 - off) div 86400000 = ?D"
    by (rule div_between)
  then have "((?D + 1) * msPerDay + 12 * msPerHour - off) div msPerDay = ?D"
    by (simp add: msPerDay_def msPerHour_def)
  then have "isoDateString ((?D + 1) * msPerDay + 12 * msPerHour - off)
      = formatDate (civilFromDays ?D)"
    by (simp only: isoDateString_def)
  also have "civilFromDays ?D = (y, m, d)"
    using parseIsoDate_valid [OF p] by (rule civil_roundtrip)
  finally show ?thesis
    by (simp add: getNextDayStr_fixed [OF p])
qed

section \<open>The next day\<close>

text \<open>
  The date is read as local noon and printed as a UTC date. On a machine thirteen
  hours ahead of UTC, local noon of 1 April is 23:00 UTC of 31 March.
\<close>

lemma parse_march_31: "parseIsoDate ''2024-03-31'' = Some (2024, 3, 31)"
  by (simp add: parseIsoDate_def Let_def isDigit_def digitValue_def decimalDigits_def
      digitsValue_def daysInMonth_def isLeapYear_def)

lemma format_dates:
  "formatDate (2024, 3, 31) = ''2024-03-31''" "formatDate (2024, 4, 1) = ''2024-04-01''"
  by (simp_all add: formatDate_def isoYear_def pad_def digits.simps digitChar_def)

lemma next_of_march_31: "nextCalendarDay (2024, 3, 31) = (2024, 4, 1)"
  by (simp add: nextCalendarDay_def daysInMonth_def)

lemma getNextDayStr_utc: "getNextDayStr (fixedZone 0) ''2024-03-31'' = Inr ''2024-04-01''"
  using getNextDayStr_near [OF parse_march_31, of 0]
  by (simp add: msPerHour_def next_of_march_31 format_dates)

lemma getNextDayStr_far_east:
  "getNextDayStr (fixedZone (13 * msPerHour)) ''2024-03-31'' = Inr ''2024-03-31''"
  using getNextDayStr_far [OF parse_march_31, of "13 * msPerHour"]
  by (simp add: msPerHour_def format_dates)

lemma today_far_east: "getTodayStr (fixedZone (13 * msPerHour)) 1711839600000 = ''2024-03-31''"
proof -
  have "utc (fixedZone (13 * msPerHour))
          (localTime (fixedZone (13 * msPerHour)) 1711839600000
           - getTimezoneOffset (fixedZone (13 * msPerHour)) 1711839600000 * msPerMinute)
        = 1711886400000"
    by (simp add: utc_def localTime_def fixedZone_def getTimezoneOffset_def msPerHour_def
        msPerMinute_def)
  moreover have "isoDateString 1711886400000 = ''2024-03-31''"
    by code_simp
  ultimately show ?thesis
    by (simp add: getTodayStr_def)
qed

lemma rollover_moves_selected:
  assumes "saveReflection tza now today fd s = (s', RolledOver n b)"
  shows "\<exists>nextDayStr. getNextDayStr tza (selectedDate s) = Inr nextDayStr
     \<and> length (tasks s') = length (tasks s)
     \<and> (\<forall>i<length (tasks s).
          date (tasks s ! i) = selectedDate s \<and> status (tasks s ! i) \<noteq> ''Done''
          \<and> fd (''recycle_'' @ id' (tasks s ! i)) = Some ''on''
          \<longrightarrow> tasks s' ! i = (tasks s ! i) \<lparr> date := nextDayStr \<rparr>
              \<and> status (tasks s' ! i) = status (tasks s ! i))"
  using assms
  by (auto simp: saveReflection_def Let_def updatedTasks_def shouldRecycle_def
      split: sum.splits if_splits)

text \<open>
  Claim C2 at the selected date 2024-03-31 with one unfinished, selected task. The
  calendar day after it is 2024-04-01, and a machine on UTC computes that. A machine on
  UTC+13 (New Zealand on that date) computes 2024-03-31 again: the handler reports one
  task rolled over and the task keeps its date. \<^verbatim>\<open>getTodayStr\<close>, which shifts the
  clock by the zone offset before printing, gives the local date on the same machine.
\<close>

theorem next_day_far_east:
  "nextCalendarDay (2024, 3, 31) = (2024, 4, 1)
   \<and> getNextDayStr (fixedZone 0) ''2024-03-31'' = Inr ''2024-04-01''
   \<and> getNextDayStr (fixedZone (13 * msPerHour)) ''2024-03-31'' = Inr ''2024-03-31''
   \<and> getTodayStr (fixedZone (13 * msPerHour)) 1711839600000 = ''2024-03-31''
   \<and> saveReflection (fixedZone (13 * msPerHour)) 1711839600000 ''2024-03-31'' sampleForm
        (sampleState [sampleTask ''1'' ''2024-03-31'' (JNumber (Num 30)) ''Not Started'']
           [] ''2024-03-31'' [])
      = (sampleState [sampleTask ''1'' ''2024-03-31'' (JNumber (Num 30)) ''Not Started'']
           [sampleReflection ''1711839600000'' ''2024-03-31'' 7] ''2024-03-31'' [],
         RolledOver 1 True)"
proof -
  note n = next_of_march_31
  have sh: "showInt 1711839600000 = ''1711839600000''"
    by (simp add: showInt_def digits.simps digitChar_def)
  have pi: "parseInt (JString ''80'') = Num 80" "parseInt (JString ''7'') = Num 7"
    by (simp_all add: parseInt_def parseIntString_def isWhiteSpace_def parseDigits_def
        digitValue_def decimalDigits_def digitsValue_def toDouble_exact)
  have sv: "saveReflection (fixedZone (13 * msPerHour)) 1711839600000 ''2024-03-31'' sampleForm
        (sampleState [sampleTask ''1'' ''2024-03-31'' (JNumber (Num 30)) ''Not Started'']
           [] ''2024-03-31'' [])
      = (sampleState [sampleTask ''1'' ''2024-03-31'' (JNumber (Num 30)) ''Not Started'']
           [sampleReflection ''1711839600000'' ''2024-03-31'' 7] ''2024-03-31'' [],
         RolledOver 1 True)"
    by (simp add: saveReflection_def Let_def sampleState_def getNextDayStr_far_east
        recycledCount_def shouldRecycle_def updatedTasks_def sampleTask_def sampleForm_def
        savedReflections_def newRef_def sampleReflection_def formValue_def sh pi)
  from n getNextDayStr_utc getNextDayStr_far_east today_far_east sv show ?thesis
    by (simp only: simp_thms)
qed

end
